theory Spec2Isabelle
  imports Main "HOL-Library.Sublist"
begin

section \<open>Strings\<close>

text \<open>
  A Go string is a sequence of bytes: \<open>len\<close> counts bytes and \<open>s[i]\<close> reads one byte.
  It is modelled as a \<open>string\<close> (a list of 8-bit characters); a rune is an \<open>int\<close>.

  \<open>strings.ToLower\<close> belongs to the standard library. It lowers a string of ASCII bytes
  byte by byte; any other string it decodes as UTF-8, rune by rune, maps every rune with
  \<open>unicode.ToLower\<close> and encodes the result. A byte that does not start a well-formed
  encoding decodes to the rune \<open>U+FFFD\<close> of width 1, so it is written back as three
  bytes: the result can be longer than the argument.
\<close>

definition RuneError :: int where
  "RuneError = 0xFFFD"

text \<open>\<open>utf8.DecodeRuneInString\<close>: the first rune of a string and its width in bytes.\<close>

definition decodeRune :: "string \<Rightarrow> int \<times> nat" where
  "decodeRune s =
     (if length s < 1 then (RuneError, 0)
      else
        let b0 = (of_char (s ! 0) :: int) in
        if b0 < 0x80 then (b0, 1)
        else if b0 < 0xC2 \<or> 0xF4 < b0 then (RuneError, 1)
        else
          let sz = (if b0 < 0xE0 then 2 else if b0 < 0xF0 then 3 else (4::nat));
              lo = (if b0 = 0xE0 then 0xA0 else if b0 = 0xF0 then 0x90 else (0x80::int));
              hi = (if b0 = 0xED then 0x9F else if b0 = 0xF4 then 0x8F else (0xBF::int))
          in
          if length s < sz then (RuneError, 1)
          else
            let b1 = (of_char (s ! 1) :: int) in
            if b1 < lo \<or> hi < b1 then (RuneError, 1)
            else if sz \<le> 2 then ((b0 mod 32) * 64 + b1 mod 64, 2)
            else
              let b2 = (of_char (s ! 2) :: int) in
              if b2 < 0x80 \<or> 0xBF < b2 then (RuneError, 1)
              else if sz \<le> 3
              then ((b0 mod 16) * 4096 + (b1 mod 64) * 64 + b2 mod 64, 3)
              else
                let b3 = (of_char (s ! 3) :: int) in
                if b3 < 0x80 \<or> 0xBF < b3 then (RuneError, 1)
                else ((b0 mod 8) * 262144 + (b1 mod 64) * 4096
                      + (b2 mod 64) * 64 + b3 mod 64, 4))"

text \<open>The runes of a string, as \<open>for _, c := range s\<close> yields them.\<close>

function runesOf :: "string \<Rightarrow> int list" where
  "runesOf s = (if s = [] then [] else fst (decodeRune s) # runesOf (drop (snd (decodeRune s)) s))"
  by pat_completeness auto
termination
proof (relation "measure length")
  show "wf (measure length)" by simp
next
  fix s :: string
  assume "s \<noteq> []"
  then have "0 < snd (decodeRune s)"
    by (simp add: decodeRune_def Let_def)
  with \<open>s \<noteq> []\<close> show "(drop (snd (decodeRune s)) s, s) \<in> measure length" by simp
qed

text \<open>
  \<open>utf8.AppendRune\<close>: the encoding of a rune; a rune out of range or a surrogate is
  written as \<open>U+FFFD\<close>.
\<close>

definition encodeRune :: "int \<Rightarrow> string" where
  "encodeRune r =
     (if 0 \<le> r \<and> r \<le> 0x7F then [char_of r]
      else if 0 \<le> r \<and> r \<le> 0x7FF then [char_of (0xC0 + r div 64), char_of (0x80 + r mod 64)]
      else if r < 0 \<or> 0x10FFFF < r \<or> (0xD800 \<le> r \<and> r \<le> 0xDFFF)
      then [char_of (0xEF::int), char_of (0xBF::int), char_of (0xBD::int)]
      else if r \<le> 0xFFFF
      then [char_of (0xE0 + r div 4096), char_of (0x80 + (r div 64) mod 64),
            char_of (0x80 + r mod 64)]
      else [char_of (0xF0 + r div 262144), char_of (0x80 + (r div 4096) mod 64),
            char_of (0x80 + (r div 64) mod 64), char_of (0x80 + r mod 64)])"

text \<open>\<open>strings.Map\<close>: every rune is replaced by its image; a negative image is dropped.\<close>

definition mapRunes :: "(int \<Rightarrow> int) \<Rightarrow> string \<Rightarrow> string" where
  "mapRunes mapping s =
     concat (map (\<lambda>c. let r = mapping c in if r \<ge> 0 then encodeRune r else []) (runesOf s))"

text \<open>
  \<open>unicode.ToLower\<close> decides the ASCII runes itself and looks every other rune up in the
  case table of the Unicode standard. The table is data of the library and is a
  parameter, \<open>caseTable\<close>, of everything that lowers a string.
\<close>

definition unicodeToLower :: "(int \<Rightarrow> int) \<Rightarrow> int \<Rightarrow> int" where
  "unicodeToLower caseTable r =
     (if r \<le> 0x7F then (if 0x41 \<le> r \<and> r \<le> 0x5A then r + 32 else r) else caseTable r)"

definition lowerByte :: "char \<Rightarrow> char" where
  "lowerByte c =
     (if (0x41::int) \<le> of_char c \<and> of_char c \<le> (0x5A::int)
      then char_of (of_char c + (32::int)) else c)"

definition isASCII :: "string \<Rightarrow> bool" where
  "isASCII s = list_all (\<lambda>c. (of_char c :: int) < 0x80) s"

definition toLower :: "(int \<Rightarrow> int) \<Rightarrow> string \<Rightarrow> string" where
  "toLower caseTable s =
     (if isASCII s then map lowerByte s else mapRunes (unicodeToLower caseTable) s)"

text \<open>
  The entries of the case table for the Latin-1 Supplement and Cyrillic blocks, the
  letters that the search box of the program accepts beside ASCII. Every other rune is
  left alone, as the table leaves the runes that have no lower-case form, \<open>U+FFFD\<close>
  among them. It stands for the table in the examples below.
\<close>

definition latinCyrillicTable :: "int \<Rightarrow> int" where
  "latinCyrillicTable r =
     (if (0xC0 \<le> r \<and> r \<le> 0xD6) \<or> (0xD8 \<le> r \<and> r \<le> 0xDE) then r + 32
      else if 0x400 \<le> r \<and> r \<le> 0x40F then r + 80
      else if 0x410 \<le> r \<and> r \<le> 0x42F then r + 32
      else if ((0x460 \<le> r \<and> r \<le> 0x481) \<or> (0x48A \<le> r \<and> r \<le> 0x4BF)
               \<or> (0x4D0 \<le> r \<and> r \<le> 0x4FF)) \<and> even r then r + 1
      else if r = 0x4C0 then 0x4CF
      else if 0x4C1 \<le> r \<and> r \<le> 0x4CE \<and> odd r then r + 1
      else r)"

section \<open>Fuzzy matcher\<close>

text \<open>
  The loop of \<open>fuzzyMatch\<close>, on the state \<open>(qIdx, tIdx, score, lastIdx)\<close>; it returns the
  final \<open>qIdx\<close> and \<open>score\<close>. Both indices stay inside their strings while the guard holds.
\<close>

function fuzzyLoop :: "string \<Rightarrow> string \<Rightarrow> int \<Rightarrow> int \<Rightarrow> int \<Rightarrow> int \<Rightarrow> int \<times> int" where
  "fuzzyLoop query text qIdx tIdx score lastIdx =
     (if qIdx \<ge> 0 \<and> tIdx \<ge> 0 then
        (if query ! nat qIdx = text ! nat tIdx then
           fuzzyLoop query text (qIdx - 1) (tIdx - 1)
             (if lastIdx \<ge> 0 then score + min (lastIdx - tIdx) 3 else score) tIdx
         else fuzzyLoop query text qIdx (tIdx - 1) score lastIdx)
      else (qIdx, score))"
  by pat_completeness auto
termination
  by (relation "measure (\<lambda>(query, text, qIdx, tIdx, score, lastIdx). nat (tIdx + 1))") auto

definition fuzzyMatch :: "(int \<Rightarrow> int) \<Rightarrow> string \<Rightarrow> string \<Rightarrow> bool \<times> int" where
  "fuzzyMatch caseTable query0 text0 =
     (let query = toLower caseTable query0;
          text = toLower caseTable text0;
          qIdx = int (length query) - 1;
          tIdx = int (length text) - 1;
          (qIdx', score) = fuzzyLoop query text qIdx tIdx 0 (- 1)
      in if qIdx' \<ge> 0 then (False, 0) else (True, score))"

text \<open>
  The candidate indices at which the loop finds a query byte, in the order in which it
  finds them (from the tail of the candidate): the same loop, recording \<open>tIdx\<close> at each
  match instead of adding to the score.
\<close>

function fuzzyTrace :: "string \<Rightarrow> string \<Rightarrow> int \<Rightarrow> int \<Rightarrow> int list" where
  "fuzzyTrace query text qIdx tIdx =
     (if qIdx \<ge> 0 \<and> tIdx \<ge> 0 then
        (if query ! nat qIdx = text ! nat tIdx then
           tIdx # fuzzyTrace query text (qIdx - 1) (tIdx - 1)
         else fuzzyTrace query text qIdx (tIdx - 1))
      else [])"
  by pat_completeness auto
termination
  by (relation "measure (\<lambda>(query, text, qIdx, tIdx). nat (tIdx + 1))") auto

definition matchPositions :: "(int \<Rightarrow> int) \<Rightarrow> string \<Rightarrow> string \<Rightarrow> int list" where
  "matchPositions caseTable query0 text0 =
     (let query = toLower caseTable query0; text = toLower caseTable text0
      in fuzzyTrace query text (int (length query) - 1) (int (length text) - 1))"

text \<open>The sum of \<open>min (previous - current) 3\<close> over neighbouring positions of a list.\<close>

fun gapScore :: "int list \<Rightarrow> int" where
  "gapScore (a # b # ps) = min (a - b) 3 + gapScore (b # ps)"
| "gapScore ps = 0"

text \<open>
  The score as the specification words it, to be compared with the one the code
  computes: the distance between two matches at neighbouring positions is 0, so the
  distance is the number of candidate positions strictly between the two matches.
\<close>

fun specGapScore :: "int list \<Rightarrow> int" where
  "specGapScore (a # b # ps) = min (a - b - 1) 3 + specGapScore (b # ps)"
| "specGapScore ps = 0"

text \<open>
  The match as the specification words it, to be compared with the one the code
  computes: the characters of the query, compared without regard to case and read from
  the last to the first, are a subsequence of the characters of the candidate. A
  character is a rune of the string.
\<close>

definition specIsMatch :: "(int \<Rightarrow> int) \<Rightarrow> string \<Rightarrow> string \<Rightarrow> bool" where
  "specIsMatch caseTable query cand =
     subseq (rev (map (unicodeToLower caseTable) (runesOf query)))
            (rev (map (unicodeToLower caseTable) (runesOf cand)))"

text \<open>
  The same scan as structural recursion over the two strings read from their tails
  (that is, over the reversed strings). In place of \<open>lastIdx\<close> it carries the distance
  \<open>lastIdx - tIdx\<close> to the previous match, \<open>None\<close> before the first match. It is used in
  proofs only and is shown to compute what \<open>fuzzyLoop\<close> computes.
\<close>

fun tailScan :: "string \<Rightarrow> string \<Rightarrow> int \<Rightarrow> int option \<Rightarrow> bool \<times> int" where
  "tailScan [] ts s d = (True, s)"
| "tailScan (q # qs) [] s d = (False, s)"
| "tailScan (q # qs) (t # ts) s d =
     (if q = t then tailScan qs ts (case d of None \<Rightarrow> s | Some k \<Rightarrow> s + min k 3) (Some 1)
      else tailScan (q # qs) ts s (map_option (\<lambda>k. k + 1) d))"

section \<open>Filter and rank\<close>

text \<open>\<open>strings.Split(p, "/")\<close>: the segments between the separators, never an empty list.\<close>

fun splitSlash :: "string \<Rightarrow> string list" where
  "splitSlash [] = [[]]"
| "splitSlash (c # cs) =
     (if c = CHR ''/'' then [] # splitSlash cs
      else (case splitSlash cs of [] \<Rightarrow> [[c]] | x # xs \<Rightarrow> (c # x) # xs))"

text \<open>The leaf segment \<open>last := parts[n-1]\<close> of a path.\<close>

definition leafSegment :: "string \<Rightarrow> string" where
  "leafSegment p = (let parts = splitSlash p; n = length parts in parts ! (n - 1))"

record scored =
  project :: string
  score :: int

text \<open>
  The body of the loop over the projects up to the label \<open>add\<close>: the leaf segment is
  matched first, but the jump to \<open>add\<close> is guarded by \<open>match && 1 == 2\<close>, so the
  match against the whole path always follows and overwrites the result.
\<close>

definition matchProject :: "(int \<Rightarrow> int) \<Rightarrow> string \<Rightarrow> string \<Rightarrow> bool \<times> int" where
  "matchProject caseTable query p =
     (let parts = splitSlash p; n = length parts
      in if n > 0 then
           (let (m, sc) = fuzzyMatch caseTable query (parts ! (n - 1))
            in if m \<and> (1::int) = 2 then (m, sc) else fuzzyMatch caseTable query p)
         else fuzzyMatch caseTable query p)"

fun collectMatches ::
  "(int \<Rightarrow> int) \<Rightarrow> string \<Rightarrow> string list \<Rightarrow> scored list \<Rightarrow> scored list" where
  "collectMatches caseTable query [] matches = matches"
| "collectMatches caseTable query (p # ps) matches =
     (let (m, sc) = matchProject caseTable query p
      in collectMatches caseTable query ps
           (if m then matches @ [\<lparr>project = p, score = sc\<rparr>] else matches))"

text \<open>
  \<open>slices.SortFunc\<close> with the comparison \<open>a.score - b.score\<close> sorts by score; scores are
  small (at most three times the length of the query), so the difference does not wrap.
  The library leaves the order of equal scores open; the model sorts with \<open>sort_key\<close>,
  and no theorem below depends on the order of equal scores. A nil slice is the empty
  list.
\<close>

definition filterProjects ::
  "(int \<Rightarrow> int) \<Rightarrow> string list \<Rightarrow> string \<Rightarrow> string list \<times> scored list" where
  "filterProjects caseTable projects query =
     (if query = [] then (projects, [])
      else (let matches = sort_key score (collectMatches caseTable query projects [])
            in (map project matches, matches)))"

section \<open>Traversal engine\<close>

datatype stop = ContinueAnyway | Conitinue | StopAnyway | Stop

text \<open>
  The directory tree that \<open>os.ReadDir\<close> reads. An entry is a file (or anything else
  that is not a directory, such as a symbolic link), a directory with its entries, or a
  directory whose listing fails. Entries are not followed through links, so the tree is
  finite.
\<close>

datatype dirent = File string | Dir string "dirent list" | Locked string

fun entName :: "dirent \<Rightarrow> string" where
  "entName (File n) = n"
| "entName (Dir n es) = n"
| "entName (Locked n) = n"

fun entIsDir :: "dirent \<Rightarrow> bool" where
  "entIsDir (File n) = False"
| "entIsDir (Dir n es) = True"
| "entIsDir (Locked n) = True"

text \<open>What \<open>os.ReadDir\<close> returns at the path of an entry: \<open>None\<close> when it fails.\<close>

fun readDirOf :: "dirent \<Rightarrow> dirent list option" where
  "readDirOf (File n) = None"
| "readDirOf (Dir n es) = Some es"
| "readDirOf (Locked n) = None"

text \<open>
  \<open>filepath.Join(current, name)\<close> for a cleaned directory path and the name of one of its
  entries.
\<close>

definition joinPath :: "string \<Rightarrow> string \<Rightarrow> string" where
  "joinPath current name = current @ ''/'' @ name"

text \<open>
  A stack element is a path together with what \<open>os.ReadDir\<close> returns there; the top of
  the stack is the end of the list, as in the slice.
\<close>

type_synonym frame = "string \<times> dirent list option"

type_synonym 's visitor = "'s \<Rightarrow> string \<Rightarrow> string \<Rightarrow> bool \<Rightarrow> stop \<times> 's"

record flags =
  continueAnyway :: bool
  continue' :: bool
  stopAnyway :: bool
  stop' :: bool

definition noFlags :: flags where
  "noFlags = \<lparr>continueAnyway = False, continue' = False, stopAnyway = False, stop' = False\<rparr>"

text \<open>
  The loop over the entries of one directory. The callback may change the state it
  closes over, so the state is passed through it.
\<close>

fun scanEntries :: "'s visitor \<Rightarrow> string \<Rightarrow> dirent list \<Rightarrow> flags \<Rightarrow> 's \<Rightarrow> flags \<times> 's" where
  "scanEntries visit current [] fl st = (fl, st)"
| "scanEntries visit current (entry # entries) fl st =
     (let (s, st1) = visit st current (entName entry) (entIsDir entry)
      in scanEntries visit current entries
           (case s of
              Conitinue \<Rightarrow> fl\<lparr>continue' := True\<rparr>
            | ContinueAnyway \<Rightarrow> fl\<lparr>continueAnyway := True\<rparr>
            | StopAnyway \<Rightarrow> fl\<lparr>stopAnyway := True\<rparr>
            | Stop \<Rightarrow> fl\<lparr>stop' := True\<rparr>)
           st1)"

text \<open>The signals the callback returns for the entries of one directory, in order.\<close>

fun entrySignals :: "'s visitor \<Rightarrow> string \<Rightarrow> dirent list \<Rightarrow> 's \<Rightarrow> stop list" where
  "entrySignals visit current [] st = []"
| "entrySignals visit current (entry # entries) st =
     (let (s, st1) = visit st current (entName entry) (entIsDir entry)
      in s # entrySignals visit current entries st1)"

definition goDeep :: "flags \<Rightarrow> bool" where
  "goDeep fl =
     (let g = continue' fl \<and> \<not> stop' fl
      in if stopAnyway fl then False else if continueAnyway fl then True else g)"

text \<open>The loop \<open>for i := len(entries) - 1; i >= 0; i--\<close> that pushes the directories.\<close>

definition pushDirs :: "string \<Rightarrow> dirent list \<Rightarrow> frame list \<Rightarrow> frame list" where
  "pushDirs current entries stack =
     fold (\<lambda>entry stk. if entIsDir entry
                        then stk @ [(joinPath current (entName entry), readDirOf entry)]
                        else stk)
          (rev entries) stack"

text \<open>
  One iteration of the loop of \<open>walkFast\<close> on a non-empty stack. The third component
  records the popped elements in order: it is not in the code, it names the directories
  the walk visits.
\<close>

definition walkStep :: "'s visitor \<Rightarrow> frame list \<Rightarrow> 's \<Rightarrow> frame list \<Rightarrow> frame list \<times> 's \<times> frame list" where
  "walkStep visit stack st visited =
     (let n = length stack - 1;
          popped = stack ! n;
          current = fst popped;
          stack1 = take n stack
      in case snd popped of
           None \<Rightarrow> (stack1, st, visited @ [popped])
         | Some entries \<Rightarrow>
             (let (fl, st1) = scanEntries visit current entries noFlags st
              in (if goDeep fl then pushDirs current entries stack1 else stack1,
                  st1, visited @ [popped])))"

fun direntWeight :: "dirent \<Rightarrow> nat" where
  "direntWeight (File n) = 1"
| "direntWeight (Dir n es) = Suc (sum_list (map direntWeight es))"
| "direntWeight (Locked n) = 1"

fun frameWeight :: "frame \<Rightarrow> nat" where
  "frameWeight (p, None) = 1"
| "frameWeight (p, Some es) = Suc (sum_list (map direntWeight es))"

function walkLoop :: "'s visitor \<Rightarrow> frame list \<Rightarrow> 's \<Rightarrow> frame list \<Rightarrow> 's \<times> frame list" where
  "walkLoop visit stack st visited =
     (if length stack > 0 then
        (let (stack1, st1, visited1) = walkStep visit stack st visited
         in walkLoop visit stack1 st1 visited1)
      else (st, visited))"
  by pat_completeness auto
termination
proof (relation "measure (\<lambda>(visit, stack, st, visited). sum_list (map frameWeight stack))")
  show "wf (measure (\<lambda>(visit, stack, st, visited). sum_list (map frameWeight stack)))"
    by simp
next
  fix visit :: "'s visitor" and stack :: "frame list" and st :: 's
    and visited :: "frame list" and r :: "frame list \<times> 's \<times> frame list"
    and x :: "frame list" and y :: "'s \<times> frame list" and xb :: 's and ya :: "frame list"
  assume ne: "0 < length stack"
    and r: "r = walkStep visit stack st visited"
    and xy: "(x, y) = r"
  from r xy have step: "(x, y) = walkStep visit stack st visited" by simp
  have push: "sum_list (map frameWeight (pushDirs c es stk))
        \<le> sum_list (map frameWeight stk) + sum_list (map direntWeight es)"
    for c es and stk :: "frame list"
  proof -
    have "sum_list (map frameWeight (fold (\<lambda>entry stk. if entIsDir entry
                        then stk @ [(joinPath c (entName entry), readDirOf entry)]
                        else stk) xs stk))
        \<le> sum_list (map frameWeight stk) + sum_list (map direntWeight xs)" for xs
    proof (induction xs arbitrary: stk)
      case Nil
      show ?case by simp
    next
      case (Cons e xs)
      have le: "frameWeight (joinPath c (entName e), readDirOf e) \<le> direntWeight e"
        by (cases e) simp_all
      show ?case
      proof (cases "entIsDir e")
        case True
        with Cons[of "stk @ [(joinPath c (entName e), readDirOf e)]"] le show ?thesis
          by (simp del: frameWeight.simps)
      next
        case False
        with Cons[of stk] show ?thesis by simp
      qed
    qed
    from this[of "rev es"] show ?thesis
      by (simp add: pushDirs_def rev_map[symmetric] del: frameWeight.simps)
  qed
  let ?n = "length stack - 1"
  have split: "stack = take ?n stack @ [stack ! ?n]"
    using ne by (metis Suc_pred' lessI take_Suc_conv_app_nth take_all order_refl)
  have w: "sum_list (map frameWeight stack)
      = sum_list (map frameWeight (take ?n stack)) + frameWeight (stack ! ?n)"
    by (subst split) (simp del: frameWeight.simps)
  have "sum_list (map frameWeight x) < sum_list (map frameWeight stack)"
  proof (cases "snd (stack ! ?n)")
    case None
    then have "x = take ?n stack" using step by (simp add: walkStep_def Let_def)
    moreover have "0 < frameWeight (stack ! ?n)" by (cases "stack ! ?n") (use None in auto)
    ultimately show ?thesis using w by simp
  next
    case (Some es)
    then have fw: "frameWeight (stack ! ?n) = Suc (sum_list (map direntWeight es))"
      by (cases "stack ! ?n") auto
    have "x = take ?n stack \<or> x = pushDirs (fst (stack ! ?n)) es (take ?n stack)"
      using step Some by (auto simp: walkStep_def Let_def split: prod.splits if_splits)
    then show ?thesis using w fw push[of "fst (stack ! ?n)" es "take ?n stack"] by auto
  qed
  then show "((visit, x, xb, ya), visit, stack, st, visited)
      \<in> measure (\<lambda>(visit, stack, st, visited). sum_list (map frameWeight stack))"
    by simp
qed

definition walkFast :: "string \<Rightarrow> dirent list option \<Rightarrow> 's visitor \<Rightarrow> 's \<Rightarrow> 's \<times> frame list" where
  "walkFast root rd visit st = walkLoop visit [(root, rd)] st []"

section \<open>Project detector\<close>

definition projectMarkers :: "string list" where
  "projectMarkers =
     [''pom.xml'', ''go.mod'', ''package.json'', ''Cargo.toml'', ''Makefile'', ''.git'',
      ''main.js'', ''index.js'']"

definition skipDirs :: "string list" where
  "skipDirs = [''node_modules'']"

text \<open>The variables the callback of \<open>findProjects\<close> closes over.\<close>

record findState =
  projects :: "string list"
  seen :: "string set"

definition findVisit :: "findState visitor" where
  "findVisit st path name isDir =
     (if name \<in> set skipDirs then (StopAnyway, st)
      else if name \<in> set projectMarkers then
        (Stop, if path \<in> seen st then st
               else st\<lparr>projects := projects st @ [path], seen := insert path (seen st)\<rparr>)
      else if name = ''go.work'' then (ContinueAnyway, st)
      else (Conitinue, st))"

text \<open>
  The loop over the base directories; each base directory comes with the tree found
  there. The visited directories of all walks are collected beside the state.
\<close>

fun findLoop :: "frame list \<Rightarrow> findState \<Rightarrow> frame list \<Rightarrow> findState \<times> frame list" where
  "findLoop [] st visited = (st, visited)"
| "findLoop (base # baseDirs) st visited =
     (let (st1, v) = walkFast (fst base) (snd base) findVisit st
      in findLoop baseDirs st1 (visited @ v))"

definition findProjects :: "frame list \<Rightarrow> string list" where
  "findProjects baseDirs = projects (fst (findLoop baseDirs \<lparr>projects = [], seen = {}\<rparr> []))"

definition findVisited :: "frame list \<Rightarrow> frame list" where
  "findVisited baseDirs = snd (findLoop baseDirs \<lparr>projects = [], seen = {}\<rparr> [])"

text \<open>
  Names as a file system has them: no name contains the separator, and the entries of
  one directory have different names.
\<close>

fun wfEntry :: "dirent \<Rightarrow> bool" where
  "wfEntry (File n) = (CHR ''/'' \<notin> set n)"
| "wfEntry (Dir n es) =
     (CHR ''/'' \<notin> set n \<and> distinct (map entName es) \<and> (\<forall>e \<in> set es. wfEntry e))"
| "wfEntry (Locked n) = (CHR ''/'' \<notin> set n)"

fun wfTree :: "dirent list option \<Rightarrow> bool" where
  "wfTree None = True"
| "wfTree (Some es) = (distinct (map entName es) \<and> (\<forall>e \<in> set es. wfEntry e))"

text \<open>
  The signal of \<open>findVisit\<close> depends on the name of the entry only. With it, the
  directories a walk of \<open>findProjects\<close> visits are described by recursion over the tree,
  in depth-first order; both are used in proofs only.
\<close>

definition nameSignal :: "string \<Rightarrow> stop" where
  "nameSignal name =
     (if name \<in> set skipDirs then StopAnyway
      else if name \<in> set projectMarkers then Stop
      else if name = ''go.work'' then ContinueAnyway
      else Conitinue)"

definition descends :: "dirent list \<Rightarrow> bool" where
  "descends es =
     (StopAnyway \<notin> nameSignal ` entName ` set es
      \<and> (ContinueAnyway \<in> nameSignal ` entName ` set es
         \<or> (Conitinue \<in> nameSignal ` entName ` set es
            \<and> Stop \<notin> nameSignal ` entName ` set es)))"

fun dfsEntry :: "string \<Rightarrow> dirent \<Rightarrow> frame list" where
  "dfsEntry current (File n) = []"
| "dfsEntry current (Locked n) = [(joinPath current n, None)]"
| "dfsEntry current (Dir n es) =
     (joinPath current n, Some es) #
     (if descends es then concat (map (dfsEntry (joinPath current n)) es) else [])"

fun dfsFrame :: "frame \<Rightarrow> frame list" where
  "dfsFrame (p, None) = [(p, None)]"
| "dfsFrame (p, Some es) =
     (p, Some es) # (if descends es then concat (map (dfsEntry p) es) else [])"

text \<open>The path \<open>q\<close> is \<open>p\<close> itself or lies below the directory \<open>p\<close>.\<close>

definition atOrBelow :: "string \<Rightarrow> string \<Rightarrow> bool" where
  "atOrBelow p q = (\<exists>s. q = p @ s \<and> (s = [] \<or> hd s = CHR ''/''))"

section \<open>Cache store\<close>

record Cache =
  Projects :: "string list"

datatype error = NotExist | PermissionDenied | JsonError

text \<open>
  The file system as \<open>os.ReadFile\<close> and \<open>os.WriteFile\<close> see it: the bytes stored at a
  path, and the paths at which a write fails.
\<close>

record fileSystem =
  files :: "string \<rightharpoonup> string"
  readOnly :: "string set"

definition readFile :: "fileSystem \<Rightarrow> string \<Rightarrow> error + string" where
  "readFile fs path = (case files fs path of None \<Rightarrow> Inl NotExist | Some data \<Rightarrow> Inr data)"

definition writeFile :: "fileSystem \<Rightarrow> string \<Rightarrow> string \<Rightarrow> error option \<times> fileSystem" where
  "writeFile fs path data =
     (if path \<in> readOnly fs then (Some PermissionDenied, fs)
      else (None, fs\<lparr>files := (files fs)(path \<mapsto> data)\<rparr>))"

text \<open>
  \<open>json.Unmarshal\<close> and \<open>json.MarshalIndent\<close> belong to the standard library; the two
  functions take them as parameters. An error is the left summand of a result;
  \<open>saveCache\<close> returns its error (\<open>None\<close> for \<open>nil\<close>) beside the new file system.
\<close>

definition loadCache :: "(string \<Rightarrow> error + Cache) \<Rightarrow> fileSystem \<Rightarrow> string \<Rightarrow> error + string list" where
  "loadCache unmarshal fs path =
     (case readFile fs path of
        Inl err \<Rightarrow> Inl err
      | Inr data \<Rightarrow>
          (case unmarshal data of
             Inl err \<Rightarrow> Inl err
           | Inr c \<Rightarrow> Inr (Projects c)))"

definition saveCache ::
  "(Cache \<Rightarrow> error + string) \<Rightarrow> fileSystem \<Rightarrow> string \<Rightarrow> string list \<Rightarrow> error option \<times> fileSystem" where
  "saveCache marshalIndent fs path ps =
     (let c = \<lparr>Projects = ps\<rparr>
      in case marshalIndent c of
           Inl err \<Rightarrow> (Some err, fs)
         | Inr data \<Rightarrow> writeFile fs path data)"

section \<open>Properties of lowering\<close>

declare runesOf.simps [simp del]

lemma runesOf_Nil: "runesOf [] = []"
  by (subst runesOf.simps) simp

lemma runesOf_step:
  "s \<noteq> [] \<Longrightarrow> runesOf s = fst (decodeRune s) # runesOf (drop (snd (decodeRune s)) s)"
  by (subst runesOf.simps) simp

lemma decodeRune_size: "s \<noteq> [] \<Longrightarrow> 1 \<le> snd (decodeRune s) \<and> snd (decodeRune s) \<le> length s"
  by (cases s) (auto simp: decodeRune_def Let_def Suc_le_eq)

lemma decodeRune_ascii:
  "(of_char c :: int) < 0x80 \<Longrightarrow> decodeRune (c # cs) = (of_char c, 1)"
  by (simp add: decodeRune_def Let_def)

lemma decodeRune_append:
  assumes "xs \<noteq> []" and "(of_char (last xs) :: int) < 0x80"
  shows "decodeRune (xs @ ys) = decodeRune xs"
proof -
  consider (1) a where "xs = [a]" | (2) a b where "xs = [a, b]" | (3) a b c where "xs = [a, b, c]"
    | (4) a b c d zs where "xs = a # b # c # d # zs"
    using assms(1) by (metis list.exhaust)
  then show ?thesis
  proof cases
    case 1
    with assms(2) show ?thesis by (simp add: decodeRune_ascii)
  next
    case 2
    with assms(2) show ?thesis by (auto simp: decodeRune_def Let_def)
  next
    case 3
    with assms(2) show ?thesis by (auto simp: decodeRune_def Let_def)
  next
    case 4
    then show ?thesis by (simp add: decodeRune_def Let_def)
  qed
qed

lemma runesOf_append:
  "xs = [] \<or> (of_char (last xs) :: int) < 0x80 \<Longrightarrow> runesOf (xs @ ys) = runesOf xs @ runesOf ys"
proof (induction xs rule: length_induct)
  case (1 xs)
  show ?case
  proof (cases "xs = []")
    case True
    then show ?thesis by (simp add: runesOf_Nil)
  next
    case False
    with "1.prems" have asc: "(of_char (last xs) :: int) < 0x80" by simp
    let ?k = "snd (decodeRune xs)"
    have k: "1 \<le> ?k" "?k \<le> length xs" using decodeRune_size[OF False] by auto
    have d: "decodeRune (xs @ ys) = decodeRune xs" using False asc by (rule decodeRune_append)
    have shorter: "length (drop ?k xs) < length xs" using k False by simp
    have tail: "drop ?k xs = [] \<or> (of_char (last (drop ?k xs)) :: int) < 0x80"
    proof (cases "?k < length xs")
      case True
      then show ?thesis using asc by (simp add: last_drop)
    next
      case False
      then show ?thesis by simp
    qed
    from "1.IH" shorter tail
    have ih: "runesOf (drop ?k xs @ ys) = runesOf (drop ?k xs) @ runesOf ys" by blast
    have "runesOf (xs @ ys) = fst (decodeRune xs) # runesOf (drop ?k (xs @ ys))"
      using runesOf_step[of "xs @ ys"] False d by simp
    also have "drop ?k (xs @ ys) = drop ?k xs @ ys" using k by simp
    finally show ?thesis using ih runesOf_step[OF False] by simp
  qed
qed

lemma runesOf_ascii:
  "isASCII s \<Longrightarrow> runesOf s = map of_char s"
  unfolding isASCII_def
proof (induction s)
  case Nil
  show ?case by (simp add: runesOf_Nil)
next
  case (Cons c cs)
  then have "decodeRune (c # cs) = (of_char c, 1)" by (simp add: decodeRune_ascii)
  with Cons show ?case by (simp add: runesOf_step)
qed

lemma of_char_nonneg: "0 \<le> (of_char c :: int)"
proof -
  have "0 \<le> (of_char c :: int) mod 256" by (rule pos_mod_sign) simp
  then show ?thesis by (simp only: of_char_mod_256)
qed

lemma lowerByte_rune:
  assumes "(of_char c :: int) < 0x80"
  shows "(let r = unicodeToLower tbl (of_char c) in if r \<ge> 0 then encodeRune r else []) = [lowerByte c]"
proof (cases "(0x41::int) \<le> of_char c \<and> of_char c \<le> (0x5A::int)")
  case True
  then show ?thesis
    by (auto simp: unicodeToLower_def encodeRune_def lowerByte_def Let_def)
next
  case False
  then have "unicodeToLower tbl (of_char c) = of_char c"
    using assms by (auto simp: unicodeToLower_def)
  then show ?thesis
    using assms False of_char_nonneg[of c] by (auto simp: encodeRune_def lowerByte_def Let_def)
qed

lemma mapRunes_ascii:
  "isASCII s \<Longrightarrow> mapRunes (unicodeToLower tbl) s = map lowerByte s"
proof -
  assume a: "isASCII s"
  have "concat (map (\<lambda>c. let r = unicodeToLower tbl c in if r \<ge> 0 then encodeRune r else [])
                 (map of_char s)) = map lowerByte s"
    using a unfolding isASCII_def
  proof (induction s)
    case Nil
    show ?case by simp
  next
    case (Cons c cs)
    then show ?case using lowerByte_rune[of c tbl] by simp
  qed
  then show ?thesis using a by (simp add: mapRunes_def runesOf_ascii)
qed

lemma toLower_ascii:
  "isASCII s \<Longrightarrow> toLower tbl s = map lowerByte s"
  by (simp add: toLower_def)

lemma toLower_runes: "toLower tbl s = mapRunes (unicodeToLower tbl) s"
  by (simp add: toLower_def mapRunes_ascii)

lemma toLower_append:
  "pre = [] \<or> (of_char (last pre) :: int) < 0x80 \<Longrightarrow>
   toLower tbl (pre @ leaf) = toLower tbl pre @ toLower tbl leaf"
  by (simp add: toLower_runes mapRunes_def runesOf_append)

lemma toLower_Nil: "toLower tbl [] = []"
  by (simp add: toLower_def isASCII_def)

lemma length_toLower_ascii:
  "isASCII s \<Longrightarrow> length (toLower tbl s) = length s"
  by (simp add: toLower_ascii)

section \<open>Properties of the fuzzy matcher\<close>

lemma rev_take_Suc_int:
  "0 \<le> i \<Longrightarrow> i < int (length xs) \<Longrightarrow>
   rev (take (nat (i + 1)) xs) = xs ! nat i # rev (take (nat (i - 1 + 1)) xs)"
proof -
  assume a: "0 \<le> i" "i < int (length xs)"
  then have "nat (i + 1) = Suc (nat i)" by simp
  moreover have "nat i < length xs" using a by simp
  ultimately show ?thesis by (simp add: take_Suc_conv_app_nth)
qed

lemma bridge:
  "- 1 \<le> qi \<Longrightarrow> qi < int (length q) \<Longrightarrow> - 1 \<le> ti \<Longrightarrow> ti < int (length t) \<Longrightarrow>
   fuzzyLoop q t qi ti s l = (qi', s') \<Longrightarrow>
   tailScan (rev (take (nat (qi + 1)) q)) (rev (take (nat (ti + 1)) t)) s
     (if l \<ge> 0 then Some (l - ti) else None) = (qi' < 0, s')"
proof (induction q t qi ti s l rule: fuzzyLoop.induct)
  case (1 query cand qIdx tIdx sc lastIdx)
  show ?case
  proof (cases "qIdx \<ge> 0 \<and> tIdx \<ge> 0")
    case False
    show ?thesis
    proof (cases "qIdx \<ge> 0")
      case True
      with False have t: "tIdx < 0" by simp
      from True "1.prems" have "rev (take (nat (qIdx + 1)) query) =
          query ! nat qIdx # rev (take (nat (qIdx - 1 + 1)) query)"
        by (intro rev_take_Suc_int) auto
      with t True "1.prems" show ?thesis by simp
    next
      case False
      with "1.prems" show ?thesis by simp
    qed
  next
    case True
    then have q: "0 \<le> qIdx" and t: "0 \<le> tIdx" by auto
    have rq: "rev (take (nat (qIdx + 1)) query) =
          query ! nat qIdx # rev (take (nat (qIdx - 1 + 1)) query)"
      using q "1.prems" by (intro rev_take_Suc_int) auto
    have rt: "rev (take (nat (tIdx + 1)) cand) =
          cand ! nat tIdx # rev (take (nat (tIdx - 1 + 1)) cand)"
      using t "1.prems" by (intro rev_take_Suc_int) auto
    show ?thesis
    proof (cases "query ! nat qIdx = cand ! nat tIdx")
      case eq: True
      from "1.prems" q t eq have step:
        "fuzzyLoop query cand (qIdx - 1) (tIdx - 1)
           (if lastIdx \<ge> 0 then sc + min (lastIdx - tIdx) 3 else sc) tIdx = (qi', s')"
        by simp
      have "tailScan (rev (take (nat (qIdx - 1 + 1)) query)) (rev (take (nat (tIdx - 1 + 1)) cand))
              (if lastIdx \<ge> 0 then sc + min (lastIdx - tIdx) 3 else sc)
              (if tIdx \<ge> 0 then Some (tIdx - (tIdx - 1)) else None) = (qi' < 0, s')"
        using "1.IH"(1)[OF True eq _ _ _ _ step] "1.prems" q t by simp
      then show ?thesis
        apply (subst rq, subst rt)
        using eq t by (simp split: if_splits)
    next
      case neq: False
      from "1.prems" q t neq have step:
        "fuzzyLoop query cand qIdx (tIdx - 1) sc lastIdx = (qi', s')"
        by simp
      have "tailScan (rev (take (nat (qIdx + 1)) query)) (rev (take (nat (tIdx - 1 + 1)) cand))
              sc (if lastIdx \<ge> 0 then Some (lastIdx - (tIdx - 1)) else None) = (qi' < 0, s')"
        using "1.IH"(2)[OF True neq _ _ _ _ step] "1.prems" q t by simp
      then show ?thesis
        apply (subst rt)
        apply (subst (asm) rq)
        apply (subst rq)
        using neq by (simp add: algebra_simps split: if_splits)
    qed
  qed
qed

lemma fuzzyMatch_tailScan:
  "fuzzyMatch tbl query cand =
     (let r = tailScan (rev (toLower tbl query)) (rev (toLower tbl cand)) 0 None
      in if fst r then (True, snd r) else (False, 0))"
proof -
  obtain qi' s' where L: "fuzzyLoop (toLower tbl query) (toLower tbl cand)
      (int (length (toLower tbl query)) - 1) (int (length (toLower tbl cand)) - 1) 0 (- 1) = (qi', s')"
    by (cases "fuzzyLoop (toLower tbl query) (toLower tbl cand)
      (int (length (toLower tbl query)) - 1) (int (length (toLower tbl cand)) - 1) 0 (- 1)") auto
  have "tailScan (rev (take (nat (int (length (toLower tbl query)) - 1 + 1)) (toLower tbl query)))
          (rev (take (nat (int (length (toLower tbl cand)) - 1 + 1)) (toLower tbl cand))) 0
          (if (- 1::int) \<ge> 0 then Some (- 1 - (int (length (toLower tbl cand)) - 1)) else None)
        = (qi' < 0, s')"
    by (rule bridge[OF _ _ _ _ L]) auto
  then have "tailScan (rev (toLower tbl query)) (rev (toLower tbl cand)) 0 None = (qi' < 0, s')"
    by simp
  with L show ?thesis
    by (auto simp: fuzzyMatch_def Let_def)
qed

lemma tailScan_subseq: "fst (tailScan qs ts s d) \<longleftrightarrow> subseq qs ts"
  by (induction qs ts s d rule: tailScan.induct) (auto simp: subseq_Cons2_neq)

lemma tailScan_lower:
  "(\<And>k. d = Some k \<Longrightarrow> 0 \<le> k) \<Longrightarrow> s \<le> snd (tailScan qs ts s d)"
proof (induction qs ts s d rule: tailScan.induct)
  case (3 q qs t ts s d)
  show ?case
  proof (cases "q = t")
    case True
    have "(case d of None \<Rightarrow> s | Some k \<Rightarrow> s + min k 3) \<le>
          snd (tailScan qs ts (case d of None \<Rightarrow> s | Some k \<Rightarrow> s + min k 3) (Some 1))"
      using "3.IH"(1)[OF True] by simp
    moreover have "s \<le> (case d of None \<Rightarrow> s | Some k \<Rightarrow> s + min k 3)"
      using "3.prems" by (cases d) auto
    ultimately show ?thesis using True by simp
  next
    case False
    have "s \<le> snd (tailScan (q # qs) ts s (map_option (\<lambda>k. k + 1) d))"
      using "3.IH"(2)[OF False] "3.prems" by (cases d) auto
    then show ?thesis using False by simp
  qed
qed auto

lemma tailScan_upper:
  "snd (tailScan qs ts s d) \<le> s + 3 * (int (length qs) - (if d = None \<and> qs \<noteq> [] then 1 else 0))"
proof (induction qs ts s d rule: tailScan.induct)
  case (3 q qs t ts s d)
  show ?case
  proof (cases "q = t")
    case True
    have "snd (tailScan qs ts (case d of None \<Rightarrow> s | Some k \<Rightarrow> s + min k 3) (Some 1))
          \<le> (case d of None \<Rightarrow> s | Some k \<Rightarrow> s + min k 3) + 3 * int (length qs)"
      using "3.IH"(1)[OF True] by simp
    moreover have "(case d of None \<Rightarrow> s | Some k \<Rightarrow> s + min k 3) \<le> s + (if d = None then 0 else 3)"
      by (cases d) auto
    ultimately show ?thesis using True by (auto split: if_splits)
  next
    case False
    then show ?thesis using "3.IH"(2)[OF False] by (cases d) auto
  qed
qed auto

lemma tailScan_append:
  "fst (tailScan qs ts s d) \<Longrightarrow> tailScan qs (ts @ us) s d = tailScan qs ts s d"
  by (induction qs ts s d rule: tailScan.induct) auto

lemma fuzzyMatch_suffix:
  "pre = [] \<or> (of_char (last pre) :: int) < 0x80 \<Longrightarrow> fst (fuzzyMatch tbl query leaf) \<Longrightarrow>
   fuzzyMatch tbl query (pre @ leaf) = fuzzyMatch tbl query leaf"
  by (simp add: fuzzyMatch_tailScan toLower_append Let_def tailScan_append split: if_splits)

declare fuzzyLoop.simps [simp del] fuzzyTrace.simps [simp del]

lemma fuzzyLoop_stop: "\<not> (qi \<ge> 0 \<and> ti \<ge> 0) \<Longrightarrow> fuzzyLoop q t qi ti s l = (qi, s)"
  by (subst fuzzyLoop.simps) auto

lemma fuzzyLoop_hit: "qi \<ge> 0 \<Longrightarrow> ti \<ge> 0 \<Longrightarrow> q ! nat qi = t ! nat ti \<Longrightarrow>
  fuzzyLoop q t qi ti s l = fuzzyLoop q t (qi - 1) (ti - 1)
             (if l \<ge> 0 then s + min (l - ti) 3 else s) ti"
  by (subst fuzzyLoop.simps) auto

lemma fuzzyLoop_miss: "qi \<ge> 0 \<Longrightarrow> ti \<ge> 0 \<Longrightarrow> q ! nat qi \<noteq> t ! nat ti \<Longrightarrow>
  fuzzyLoop q t qi ti s l = fuzzyLoop q t qi (ti - 1) s l"
  by (subst fuzzyLoop.simps) auto

lemma fuzzyTrace_stop: "\<not> (qi \<ge> 0 \<and> ti \<ge> 0) \<Longrightarrow> fuzzyTrace q t qi ti = []"
  by (subst fuzzyTrace.simps) auto

lemma fuzzyTrace_hit: "qi \<ge> 0 \<Longrightarrow> ti \<ge> 0 \<Longrightarrow> q ! nat qi = t ! nat ti \<Longrightarrow>
  fuzzyTrace q t qi ti = ti # fuzzyTrace q t (qi - 1) (ti - 1)"
  by (subst fuzzyTrace.simps) auto

lemma fuzzyTrace_miss: "qi \<ge> 0 \<Longrightarrow> ti \<ge> 0 \<Longrightarrow> q ! nat qi \<noteq> t ! nat ti \<Longrightarrow>
  fuzzyTrace q t qi ti = fuzzyTrace q t qi (ti - 1)"
  by (subst fuzzyTrace.simps) auto

lemma fuzzyLoop_trace:
  "snd (fuzzyLoop q t qi ti s l) = s + gapScore ((if l \<ge> 0 then [l] else []) @ fuzzyTrace q t qi ti)"
proof (induction q t qi ti s l rule: fuzzyLoop.induct)
  case (1 query cand qIdx tIdx sc lastIdx)
  show ?case
  proof (cases "qIdx \<ge> 0 \<and> tIdx \<ge> 0")
    case False
    then show ?thesis by (simp add: fuzzyLoop_stop fuzzyTrace_stop)
  next
    case True
    show ?thesis
    proof (cases "query ! nat qIdx = cand ! nat tIdx")
      case eq: True
      have "snd (fuzzyLoop query cand (qIdx - 1) (tIdx - 1)
                (if lastIdx \<ge> 0 then sc + min (lastIdx - tIdx) 3 else sc) tIdx)
            = (if lastIdx \<ge> 0 then sc + min (lastIdx - tIdx) 3 else sc)
              + gapScore ([tIdx] @ fuzzyTrace query cand (qIdx - 1) (tIdx - 1))"
        using "1.IH"(1)[OF True eq] True by simp
      then show ?thesis
        using True eq by (simp add: fuzzyLoop_hit fuzzyTrace_hit)
    next
      case neq: False
      show ?thesis
        using True neq "1.IH"(2)[OF True neq] by (simp add: fuzzyLoop_miss fuzzyTrace_miss)
    qed
  qed
qed

lemma fuzzyTrace_bounds:
  "p \<in> set (fuzzyTrace q t qi ti) \<Longrightarrow> 0 \<le> p \<and> p \<le> ti"
proof (induction q t qi ti rule: fuzzyTrace.induct)
  case (1 query cand qIdx tIdx)
  show ?case
  proof (cases "qIdx \<ge> 0 \<and> tIdx \<ge> 0")
    case False
    with "1.prems" show ?thesis by (simp add: fuzzyTrace_stop)
  next
    case True
    show ?thesis
    proof (cases "query ! nat qIdx = cand ! nat tIdx")
      case eq: True
      from "1.prems" True eq have "p = tIdx \<or> p \<in> set (fuzzyTrace query cand (qIdx - 1) (tIdx - 1))"
        by (simp add: fuzzyTrace_hit)
      then show ?thesis using "1.IH"(1)[OF True eq] True by auto
    next
      case neq: False
      from "1.prems" True neq have "p \<in> set (fuzzyTrace query cand qIdx (tIdx - 1))"
        by (simp add: fuzzyTrace_miss)
      then show ?thesis using "1.IH"(2)[OF True neq] by auto
    qed
  qed
qed

lemma fuzzyTrace_decreasing:
  "sorted_wrt (\<lambda>a b. b < a) (fuzzyTrace q t qi ti)"
proof (induction q t qi ti rule: fuzzyTrace.induct)
  case (1 query cand qIdx tIdx)
  show ?case
  proof (cases "qIdx \<ge> 0 \<and> tIdx \<ge> 0")
    case False
    then show ?thesis by (simp add: fuzzyTrace_stop)
  next
    case True
    show ?thesis
    proof (cases "query ! nat qIdx = cand ! nat tIdx")
      case eq: True
      have "\<forall>p \<in> set (fuzzyTrace query cand (qIdx - 1) (tIdx - 1)). p < tIdx"
        using fuzzyTrace_bounds[of _ query cand "qIdx - 1" "tIdx - 1"] by fastforce
      then show ?thesis
        using True eq "1.IH"(1)[OF True eq] by (simp add: fuzzyTrace_hit)
    next
      case neq: False
      show ?thesis
        using True neq "1.IH"(2)[OF True neq] by (simp add: fuzzyTrace_miss)
    qed
  qed
qed

lemma fuzzyTrace_matched:
  "- 1 \<le> qi \<Longrightarrow> fst (fuzzyLoop q t qi ti s l) < 0 \<Longrightarrow>
   length (fuzzyTrace q t qi ti) = nat (qi + 1) \<and>
   (\<forall>i < nat (qi + 1). t ! nat (fuzzyTrace q t qi ti ! i) = q ! nat (qi - int i))"
proof (induction q t qi ti s l rule: fuzzyLoop.induct)
  case (1 query cand qIdx tIdx sc lastIdx)
  show ?case
  proof (cases "qIdx \<ge> 0 \<and> tIdx \<ge> 0")
    case False
    with "1.prems" have "qIdx = - 1" by (cases "qIdx \<ge> 0") (auto simp: fuzzyLoop_stop)
    then show ?thesis by (simp add: fuzzyTrace_stop)
  next
    case True
    show ?thesis
    proof (cases "query ! nat qIdx = cand ! nat tIdx")
      case eq: True
      from "1.prems" True eq have step:
        "fst (fuzzyLoop query cand (qIdx - 1) (tIdx - 1)
           (if lastIdx \<ge> 0 then sc + min (lastIdx - tIdx) 3 else sc) tIdx) < 0"
        by (simp add: fuzzyLoop_hit)
      have ih: "length (fuzzyTrace query cand (qIdx - 1) (tIdx - 1)) = nat (qIdx - 1 + 1) \<and>
         (\<forall>i < nat (qIdx - 1 + 1). cand ! nat (fuzzyTrace query cand (qIdx - 1) (tIdx - 1) ! i)
              = query ! nat (qIdx - 1 - int i))"
        using "1.IH"(1)[OF True eq _ step] True by simp
      have tr: "fuzzyTrace query cand qIdx tIdx = tIdx # fuzzyTrace query cand (qIdx - 1) (tIdx - 1)"
        using True eq by (simp add: fuzzyTrace_hit)
      have len: "length (fuzzyTrace query cand qIdx tIdx) = nat (qIdx + 1)"
        using tr ih True by (simp add: nat_add_distrib)
      have "cand ! nat (fuzzyTrace query cand qIdx tIdx ! i) = query ! nat (qIdx - int i)"
        if "i < nat (qIdx + 1)" for i
      proof (cases i)
        case 0
        then show ?thesis using tr eq by simp
      next
        case (Suc j)
        with that True have "j < nat (qIdx - 1 + 1)" by simp
        with ih have "cand ! nat (fuzzyTrace query cand (qIdx - 1) (tIdx - 1) ! j)
              = query ! nat (qIdx - 1 - int j)" by blast
        moreover have "qIdx - 1 - int j = qIdx - int (Suc j)" by simp
        ultimately show ?thesis using tr Suc by simp
      qed
      with len show ?thesis by blast
    next
      case neq: False
      from "1.prems" True neq have step: "fst (fuzzyLoop query cand qIdx (tIdx - 1) sc lastIdx) < 0"
        by (simp add: fuzzyLoop_miss)
      have tr: "fuzzyTrace query cand qIdx tIdx = fuzzyTrace query cand qIdx (tIdx - 1)"
        using True neq by (simp add: fuzzyTrace_miss)
      show ?thesis using "1.IH"(2)[OF True neq _ step] "1.prems"(1) tr by simp
    qed
  qed
qed

lemma sorted_wrt_gap:
  "sorted_wrt (\<lambda>a b. b < a) (ps::int list) \<Longrightarrow> Suc i < length ps \<Longrightarrow> 1 \<le> ps ! i - ps ! Suc i"
proof -
  assume s: "sorted_wrt (\<lambda>a b. b < a) ps" and i: "Suc i < length ps"
  have "ps ! Suc i < ps ! i"
    using sorted_wrt_nth_less[OF s, of i "Suc i"] i by simp
  then show ?thesis by simp
qed

lemma subseq_map_of_char:
  "subseq (map (of_char :: char \<Rightarrow> int) xs) (map of_char ys) \<longleftrightarrow> subseq xs ys"
proof (induction ys arbitrary: xs)
  case Nil
  show ?case by (cases xs) simp_all
next
  case (Cons y ys)
  show ?case
  proof (cases xs)
    case Nil
    then show ?thesis by simp
  next
    case (Cons x xs')
    with Cons.IH[of xs'] Cons.IH[of "x # xs'"] show ?thesis by simp
  qed
qed

lemma unicodeToLower_ascii:
  "(of_char c :: int) < 0x80 \<Longrightarrow> unicodeToLower tbl (of_char c) = of_char (lowerByte c)"
  using of_char_nonneg[of c] by (auto simp: unicodeToLower_def lowerByte_def)

lemma lowered_runes_ascii:
  "isASCII s \<Longrightarrow> map (unicodeToLower tbl) (runesOf s) = map of_char (map lowerByte s)"
proof -
  assume a: "isASCII s"
  then have "map (unicodeToLower tbl) (map of_char s) = map of_char (map lowerByte s)"
    unfolding isASCII_def by (induction s) (simp_all add: unicodeToLower_ascii)
  with a show ?thesis by (simp add: runesOf_ascii)
qed

lemma specIsMatch_ascii:
  "isASCII query \<Longrightarrow> isASCII cand \<Longrightarrow>
   specIsMatch tbl query cand \<longleftrightarrow> subseq (rev (map lowerByte query)) (rev (map lowerByte cand))"
proof -
  assume a: "isASCII query" and b: "isASCII cand"
  show ?thesis
    unfolding specIsMatch_def lowered_runes_ascii[OF a] lowered_runes_ascii[OF b]
    by (simp only: rev_map subseq_map_of_char)
qed

text \<open>
  Claim C2, as the code has it. When the query matches, the score is the sum, over each
  match after the first, of \<open>min (lastIdx - tIdx) 3\<close>, where \<open>lastIdx - tIdx\<close> is the
  difference between the candidate index of the previous match and that of the current
  one. The matched indices are strictly decreasing, so this difference is at least 1:
  two matches at neighbouring candidate positions add 1, and a difference of 3 or more
  adds exactly 3. The positions are those of the bytes of the lower-cased query in the
  lower-cased candidate, last byte first.
\<close>

theorem fuzzyMatch_score_is_gap_sum:
  "fst (fuzzyMatch tbl query cand) \<Longrightarrow>
     snd (fuzzyMatch tbl query cand) = gapScore (matchPositions tbl query cand)
   \<and> length (matchPositions tbl query cand) = length (toLower tbl query)
   \<and> (\<forall>i < length (toLower tbl query).
         0 \<le> matchPositions tbl query cand ! i
       \<and> matchPositions tbl query cand ! i < int (length (toLower tbl cand))
       \<and> toLower tbl cand ! nat (matchPositions tbl query cand ! i)
           = toLower tbl query ! (length (toLower tbl query) - 1 - i))
   \<and> (\<forall>i. Suc i < length (matchPositions tbl query cand) \<longrightarrow>
         1 \<le> matchPositions tbl query cand ! i - matchPositions tbl query cand ! Suc i)"
proof -
  assume m: "fst (fuzzyMatch tbl query cand)"
  let ?q = "toLower tbl query" and ?t = "toLower tbl cand"
  let ?qi = "int (length ?q) - 1" and ?ti = "int (length ?t) - 1"
  let ?ps = "fuzzyTrace ?q ?t ?qi ?ti"
  have ps: "matchPositions tbl query cand = ?ps"
    by (simp add: matchPositions_def Let_def)
  obtain qi' s' where L: "fuzzyLoop ?q ?t ?qi ?ti 0 (- 1) = (qi', s')"
    by (cases "fuzzyLoop ?q ?t ?qi ?ti 0 (- 1)") auto
  from m L have neg: "qi' < 0" and sc: "snd (fuzzyMatch tbl query cand) = s'"
    by (auto simp: fuzzyMatch_def Let_def split: if_splits)
  have "s' = snd (fuzzyLoop ?q ?t ?qi ?ti 0 (- 1))" using L by simp
  also have "\<dots> = gapScore ?ps" by (simp add: fuzzyLoop_trace)
  finally have c1: "snd (fuzzyMatch tbl query cand) = gapScore (matchPositions tbl query cand)"
    using sc ps by simp
  have fm: "length ?ps = nat (?qi + 1) \<and>
        (\<forall>i < nat (?qi + 1). ?t ! nat (?ps ! i) = ?q ! nat (?qi - int i))"
    by (rule fuzzyTrace_matched[where s = 0 and l = "- 1"]) (use L neg in auto)
  then have c2: "length (matchPositions tbl query cand) = length ?q"
    using ps by simp
  have c3: "0 \<le> matchPositions tbl query cand ! i
       \<and> matchPositions tbl query cand ! i < int (length ?t)
       \<and> ?t ! nat (matchPositions tbl query cand ! i) = ?q ! (length ?q - 1 - i)"
    if i: "i < length ?q" for i
  proof -
    have "?ps ! i \<in> set ?ps" using i c2 ps by simp
    then have b: "0 \<le> ?ps ! i \<and> ?ps ! i \<le> ?ti" by (rule fuzzyTrace_bounds)
    have "nat (?qi - int i) = length ?q - 1 - i"
      using i by (simp add: nat_diff_distrib)
    moreover have "?t ! nat (?ps ! i) = ?q ! nat (?qi - int i)"
      using fm i by simp
    ultimately show ?thesis using b ps by simp
  qed
  have c4: "1 \<le> matchPositions tbl query cand ! i - matchPositions tbl query cand ! Suc i"
    if "Suc i < length (matchPositions tbl query cand)" for i
    using sorted_wrt_gap[OF fuzzyTrace_decreasing, of i ?q ?t ?qi ?ti] that ps by simp
  from c1 c2 c3 c4 show ?thesis by blast
qed

theorem fuzzyMatch_score_is_gap_sum_witness:
  "fst (fuzzyMatch latinCyrillicTable ''br'' ''library'')
   \<and> matchPositions latinCyrillicTable ''br'' ''library'' = [5, 2]
   \<and> snd (fuzzyMatch latinCyrillicTable ''br'' ''library'') = gapScore [5, 2]
   \<and> gapScore [5, 2] = 3"
proof -
  have m: "fst (fuzzyMatch latinCyrillicTable ''br'' ''library'')" by code_simp
  have p: "matchPositions latinCyrillicTable ''br'' ''library'' = [5, 2]" by code_simp
  from fuzzyMatch_score_is_gap_sum[OF m] p m show ?thesis by simp
qed

text \<open>
  Claim C2 as the specification states it fails: the query \<open>ab\<close> matches the candidate
  \<open>ab\<close> at the neighbouring positions 1 and 0, and the score is 1, where the
  specification's distance of 0 would give the score 0.
\<close>

theorem fuzzyMatch_adjacent_counterexample:
  "fuzzyMatch latinCyrillicTable ''ab'' ''ab'' = (True, 1)
   \<and> matchPositions latinCyrillicTable ''ab'' ''ab'' = [1, 0]
   \<and> specGapScore (matchPositions latinCyrillicTable ''ab'' ''ab'') = 0
   \<and> snd (fuzzyMatch latinCyrillicTable ''ab'' ''ab'')
       \<noteq> specGapScore (matchPositions latinCyrillicTable ''ab'' ''ab'')"
proof -
  have a: "fuzzyMatch latinCyrillicTable ''ab'' ''ab'' = (True, 1)" by code_simp
  have b: "matchPositions latinCyrillicTable ''ab'' ''ab'' = [1, 0]" by code_simp
  from a b show ?thesis by simp
qed

text \<open>
  Claim C4, as the code has it. \<open>fuzzyMatch\<close> reports a match exactly when the bytes of
  the lower-cased query, read from the last to the first, are a subsequence of the bytes
  of the lower-cased candidate read from the last to the first; without a match the
  result is \<open>(False, 0)\<close>. The comparison is per byte of the UTF-8 encoding. For ASCII
  strings a byte is a character, and the match is the subsequence of characters without
  regard to case that the specification describes. The query \<open>br\<close> matches \<open>library\<close>,
  in either case of the letters, and the query \<open>xq\<close> does not.
\<close>

theorem fuzzyMatch_tail_subsequence:
  "(fst (fuzzyMatch tbl query cand)
      \<longleftrightarrow> subseq (rev (toLower tbl query)) (rev (toLower tbl cand)))
   \<and> (\<not> fst (fuzzyMatch tbl query cand) \<longrightarrow> fuzzyMatch tbl query cand = (False, 0))
   \<and> (isASCII query \<longrightarrow> isASCII cand \<longrightarrow>
        (fst (fuzzyMatch tbl query cand)
           \<longleftrightarrow> subseq (rev (map lowerByte query)) (rev (map lowerByte cand))))
   \<and> (isASCII query \<longrightarrow> isASCII cand \<longrightarrow>
        (fst (fuzzyMatch tbl query cand) \<longleftrightarrow> specIsMatch tbl query cand))
   \<and> fst (fuzzyMatch tbl ''br'' ''library'')
   \<and> fst (fuzzyMatch tbl ''BR'' ''Library'')
   \<and> fst (fuzzyMatch tbl ''br'' ''LIBRARY'')
   \<and> \<not> fst (fuzzyMatch tbl ''xq'' ''library'')"
proof -
  have c1: "fst (fuzzyMatch tbl query cand)
      \<longleftrightarrow> subseq (rev (toLower tbl query)) (rev (toLower tbl cand))"
    by (simp add: fuzzyMatch_tailScan Let_def tailScan_subseq)
  have c2: "\<not> fst (fuzzyMatch tbl query cand) \<longrightarrow> fuzzyMatch tbl query cand = (False, 0)"
    by (simp add: fuzzyMatch_tailScan Let_def)
  have c3: "isASCII query \<longrightarrow> isASCII cand \<longrightarrow>
        (fst (fuzzyMatch tbl query cand)
           \<longleftrightarrow> subseq (rev (map lowerByte query)) (rev (map lowerByte cand)))"
    using c1 by (simp add: toLower_ascii)
  have c4: "isASCII query \<longrightarrow> isASCII cand \<longrightarrow>
        (fst (fuzzyMatch tbl query cand) \<longleftrightarrow> specIsMatch tbl query cand)"
    using c3 by (simp add: specIsMatch_ascii)
  have e1: "fst (fuzzyMatch tbl ''br'' ''library'')" by code_simp
  have e2: "fst (fuzzyMatch tbl ''BR'' ''Library'')" by code_simp
  have e3: "fst (fuzzyMatch tbl ''br'' ''LIBRARY'')" by code_simp
  have e4: "\<not> fst (fuzzyMatch tbl ''xq'' ''library'')" by code_simp
  from c1 c2 c3 c4 e1 e2 e3 e4 show ?thesis by blast
qed

theorem fuzzyMatch_tail_subsequence_witness:
  "isASCII ''xQ'' \<and> isASCII ''LIBRARY''
   \<and> \<not> fst (fuzzyMatch latinCyrillicTable ''xQ'' ''LIBRARY'')
   \<and> fuzzyMatch latinCyrillicTable ''xQ'' ''LIBRARY'' = (False, 0)
   \<and> \<not> subseq (rev (map lowerByte ''xQ'')) (rev (map lowerByte ''LIBRARY''))
   \<and> isASCII ''bR'' \<and> isASCII ''LiBrary''
   \<and> subseq (rev (map lowerByte ''bR'')) (rev (map lowerByte ''LiBrary''))
   \<and> specIsMatch latinCyrillicTable ''bR'' ''LiBrary''
   \<and> toLower latinCyrillicTable [CHR 0xD0, CHR 0x94] = [CHR 0xD0, CHR 0xB4]
   \<and> subseq (rev (toLower latinCyrillicTable [CHR 0xD0, CHR 0x94]))
             (rev (toLower latinCyrillicTable [CHR 0x2F, CHR 0xD0, CHR 0xB4]))"
proof -
  have a1: "isASCII ''xQ''" and a2: "isASCII ''LIBRARY''" and a3: "isASCII ''bR''"
    and a4: "isASCII ''LiBrary''" by code_simp+
  have n: "\<not> fst (fuzzyMatch latinCyrillicTable ''xQ'' ''LIBRARY'')" by code_simp
  have y: "fst (fuzzyMatch latinCyrillicTable ''bR'' ''LiBrary'')" by code_simp
  have l: "toLower latinCyrillicTable [CHR 0xD0, CHR 0x94] = [CHR 0xD0, CHR 0xB4]" by code_simp
  have c: "fst (fuzzyMatch latinCyrillicTable [CHR 0xD0, CHR 0x94] [CHR 0x2F, CHR 0xD0, CHR 0xB4])"
    by code_simp
  from fuzzyMatch_tail_subsequence[of latinCyrillicTable "''xQ''" "''LIBRARY''"]
       fuzzyMatch_tail_subsequence[of latinCyrillicTable "''bR''" "''LiBrary''"]
       fuzzyMatch_tail_subsequence[of latinCyrillicTable "[CHR 0xD0, CHR 0x94]"
                                      "[CHR 0x2F, CHR 0xD0, CHR 0xB4]"]
       a1 a2 a3 a4 n y l c
  show ?thesis by blast
qed

text \<open>
  Claim C4 as the specification states it fails. The query is the one character
  \<open>U+00E9\<close>, the bytes \<open>C3 A9\<close>; the candidate is the two characters \<open>U+00E3\<close> and
  \<open>U+00A9\<close>, the bytes \<open>C3 A3 C2 A9\<close>, none of them a letter in upper case. The code
  finds \<open>A9\<close> at index 3 and \<open>C3\<close> at index 0 and reports a match, while the character
  of the query is not a character of the candidate.
\<close>

theorem fuzzyMatch_per_byte_counterexample:
  "fuzzyMatch latinCyrillicTable [CHR 0xC3, CHR 0xA9] [CHR 0xC3, CHR 0xA3, CHR 0xC2, CHR 0xA9]
     = (True, 3)
   \<and> runesOf [CHR 0xC3, CHR 0xA9] = [0xE9]
   \<and> runesOf [CHR 0xC3, CHR 0xA3, CHR 0xC2, CHR 0xA9] = [0xE3, 0xA9]
   \<and> \<not> specIsMatch latinCyrillicTable [CHR 0xC3, CHR 0xA9] [CHR 0xC3, CHR 0xA3, CHR 0xC2, CHR 0xA9]"
proof -
  have a: "fuzzyMatch latinCyrillicTable [CHR 0xC3, CHR 0xA9]
             [CHR 0xC3, CHR 0xA3, CHR 0xC2, CHR 0xA9] = (True, 3)" by code_simp
  have q: "runesOf [CHR 0xC3, CHR 0xA9] = [0xE9]" by code_simp
  have t: "runesOf [CHR 0xC3, CHR 0xA3, CHR 0xC2, CHR 0xA9] = [0xE3, 0xA9]" by code_simp
  have "\<not> specIsMatch latinCyrillicTable [CHR 0xC3, CHR 0xA9]
             [CHR 0xC3, CHR 0xA3, CHR 0xC2, CHR 0xA9]"
    unfolding specIsMatch_def q t
    by (simp add: unicodeToLower_def latinCyrillicTable_def)
  with a q t show ?thesis by blast
qed

text \<open>
  Claim C10, as the code has it. The score is never negative and at most three times
  the byte length of the lower-cased query minus one; lowering keeps the length of an
  ASCII query, so for a non-empty ASCII query the bound is three times the length of the
  query minus one. The empty query matches every candidate, the empty one included, with
  score 0, and a query that is one byte after lowering, a single ASCII character among
  them, has score 0 when it matches.
\<close>

theorem fuzzyMatch_score_bounds:
  "0 \<le> snd (fuzzyMatch tbl query cand)
   \<and> (toLower tbl query \<noteq> [] \<longrightarrow>
        snd (fuzzyMatch tbl query cand) \<le> 3 * (int (length (toLower tbl query)) - 1))
   \<and> (isASCII query \<longrightarrow> query \<noteq> [] \<longrightarrow>
        snd (fuzzyMatch tbl query cand) \<le> 3 * (int (length query) - 1))
   \<and> fuzzyMatch tbl [] cand = (True, 0)
   \<and> (length (toLower tbl query) = 1 \<longrightarrow> fst (fuzzyMatch tbl query cand) \<longrightarrow>
        snd (fuzzyMatch tbl query cand) = 0)
   \<and> (isASCII query \<longrightarrow> length query = 1 \<longrightarrow> fst (fuzzyMatch tbl query cand) \<longrightarrow>
        snd (fuzzyMatch tbl query cand) = 0)"
proof -
  let ?r = "tailScan (rev (toLower tbl query)) (rev (toLower tbl cand)) 0 None"
  have lo: "0 \<le> snd ?r" by (rule tailScan_lower) simp
  have up: "snd ?r \<le> 0 + 3 * (int (length (rev (toLower tbl query))) -
              (if (None::int option) = None \<and> rev (toLower tbl query) \<noteq> [] then 1 else 0))"
    by (rule tailScan_upper)
  have c1: "0 \<le> snd (fuzzyMatch tbl query cand)"
    using lo by (simp add: fuzzyMatch_tailScan Let_def)
  have c2: "toLower tbl query \<noteq> [] \<longrightarrow>
        snd (fuzzyMatch tbl query cand) \<le> 3 * (int (length (toLower tbl query)) - 1)"
  proof
    assume q: "toLower tbl query \<noteq> []"
    then have "1 \<le> int (length (toLower tbl query))" by (cases "toLower tbl query") auto
    with up q show "snd (fuzzyMatch tbl query cand) \<le> 3 * (int (length (toLower tbl query)) - 1)"
      by (auto simp: fuzzyMatch_tailScan Let_def)
  qed
  have c3: "isASCII query \<longrightarrow> query \<noteq> [] \<longrightarrow>
        snd (fuzzyMatch tbl query cand) \<le> 3 * (int (length query) - 1)"
    using c2 by (auto simp: toLower_ascii)
  have c4: "fuzzyMatch tbl [] cand = (True, 0)"
    by (simp add: fuzzyMatch_tailScan toLower_Nil)
  have c5: "length (toLower tbl query) = 1 \<longrightarrow> fst (fuzzyMatch tbl query cand) \<longrightarrow>
        snd (fuzzyMatch tbl query cand) = 0"
    using c1 c2 by auto
  have c6: "isASCII query \<longrightarrow> length query = 1 \<longrightarrow> fst (fuzzyMatch tbl query cand) \<longrightarrow>
        snd (fuzzyMatch tbl query cand) = 0"
    using c5 by (simp add: toLower_ascii)
  from c1 c2 c3 c4 c5 c6 show ?thesis by blast
qed

theorem fuzzyMatch_score_bounds_witness:
  "isASCII ''Br'' \<and> ''Br'' \<noteq> [] \<and> snd (fuzzyMatch latinCyrillicTable ''Br'' ''library'') = 3
   \<and> snd (fuzzyMatch latinCyrillicTable ''Br'' ''library'') \<le> 3 * (int (length ''Br'') - 1)
   \<and> isASCII ''R'' \<and> length ''R'' = 1 \<and> fst (fuzzyMatch latinCyrillicTable ''R'' ''library'')
   \<and> snd (fuzzyMatch latinCyrillicTable ''R'' ''library'') = 0
   \<and> toLower latinCyrillicTable [CHR 0xFF] = [CHR 0xEF, CHR 0xBF, CHR 0xBD]
   \<and> snd (fuzzyMatch latinCyrillicTable [CHR 0xFF] [CHR 0xFF])
        \<le> 3 * (int (length (toLower latinCyrillicTable [CHR 0xFF])) - 1)
   \<and> fuzzyMatch latinCyrillicTable [] [] = (True, 0)"
proof -
  have a1: "isASCII ''Br''" and a2: "isASCII ''R''" by code_simp+
  have a: "snd (fuzzyMatch latinCyrillicTable ''Br'' ''library'') = 3" by code_simp
  have b: "fst (fuzzyMatch latinCyrillicTable ''R'' ''library'')" by code_simp
  have l: "toLower latinCyrillicTable [CHR 0xFF] = [CHR 0xEF, CHR 0xBF, CHR 0xBD]" by code_simp
  from fuzzyMatch_score_bounds[of latinCyrillicTable "''Br''" "''library''"]
       fuzzyMatch_score_bounds[of latinCyrillicTable "''R''" "''library''"]
       fuzzyMatch_score_bounds[of latinCyrillicTable "[CHR 0xFF]" "[CHR 0xFF]"]
       fuzzyMatch_score_bounds[of latinCyrillicTable "[]" "[]"] a1 a2 a b l
  show ?thesis by simp
qed

text \<open>
  Claim C10 as the specification states it fails. The query is the single byte \<open>FF\<close>,
  which is not UTF-8: lowering writes it as the three bytes of \<open>U+FFFD\<close>, and against
  itself it scores 2, above the bound 0 for a query of length 1. The query of the single
  Cyrillic character \<open>U+0434\<close>, the two bytes \<open>D0 B4\<close>, scores 1 against itself.
\<close>

theorem fuzzyMatch_score_bounds_counterexample:
  "fuzzyMatch latinCyrillicTable [CHR 0xFF] [CHR 0xFF] = (True, 2)
   \<and> length [CHR 0xFF] = 1
   \<and> \<not> snd (fuzzyMatch latinCyrillicTable [CHR 0xFF] [CHR 0xFF])
          \<le> 3 * (int (length [CHR 0xFF]) - 1)
   \<and> fuzzyMatch latinCyrillicTable [CHR 0xD0, CHR 0xB4] [CHR 0xD0, CHR 0xB4] = (True, 1)
   \<and> runesOf [CHR 0xD0, CHR 0xB4] = [0x434]"
proof -
  have a: "fuzzyMatch latinCyrillicTable [CHR 0xFF] [CHR 0xFF] = (True, 2)" by code_simp
  have b: "fuzzyMatch latinCyrillicTable [CHR 0xD0, CHR 0xB4] [CHR 0xD0, CHR 0xB4] = (True, 1)"
    by code_simp
  have c: "runesOf [CHR 0xD0, CHR 0xB4] = [0x434]" by code_simp
  from a b c show ?thesis by simp
qed

section \<open>Properties of filtering and ranking\<close>

lemma splitSlash_nonempty: "splitSlash p \<noteq> []"
  by (induction p) (auto split: list.splits)

lemma splitSlash_single: "splitSlash p = [x] \<Longrightarrow> p = x"
proof (induction p arbitrary: x)
  case Nil
  then show ?case by simp
next
  case (Cons c cs)
  then show ?case
    by (cases "splitSlash cs") (auto simp: splitSlash_nonempty split: if_splits)
qed

lemma splitSlash_last_suffix:
  "\<exists>pre. p = pre @ last (splitSlash p)
     \<and> (if length (splitSlash p) = 1 then pre = [] else pre \<noteq> [] \<and> last pre = CHR ''/'')"
proof (induction p)
  case Nil
  then show ?case by simp
next
  case (Cons c cs)
  then obtain pre where pre: "cs = pre @ last (splitSlash cs)"
    and sep: "if length (splitSlash cs) = 1 then pre = [] else pre \<noteq> [] \<and> last pre = CHR ''/''"
    by blast
  obtain x xs where sp: "splitSlash cs = x # xs"
    using splitSlash_nonempty[of cs] by (cases "splitSlash cs") auto
  show ?case
  proof (cases "c = CHR ''/''")
    case True
    then have "last (splitSlash (c # cs)) = last (splitSlash cs)"
      and "length (splitSlash (c # cs)) \<noteq> 1"
      by (simp_all add: splitSlash_nonempty)
    moreover from pre have "c # cs = (c # pre) @ last (splitSlash cs)" by simp
    moreover have "last (c # pre) = CHR ''/''" using True sep by (auto split: if_splits)
    ultimately show ?thesis by (metis list.distinct(1))
  next
    case False
    show ?thesis
    proof (cases xs)
      case Nil
      with sp sep pre have "cs = x" by simp
      with sp Nil False have "c # cs = [] @ last (splitSlash (c # cs))"
        and "length (splitSlash (c # cs)) = 1" by simp_all
      then show ?thesis by (metis (full_types))
    next
      case (Cons y ys)
      with sp False have l: "last (splitSlash (c # cs)) = last (splitSlash cs)"
        and n: "length (splitSlash (c # cs)) \<noteq> 1" by simp_all
      from sp Cons sep have "pre \<noteq> []" "last pre = CHR ''/''" by simp_all
      with pre l have "c # cs = (c # pre) @ last (splitSlash (c # cs))"
        and "c # pre \<noteq> []" and "last (c # pre) = CHR ''/''" by simp_all
      with n show ?thesis by (metis (full_types))
    qed
  qed
qed

lemma leafSegment_suffix:
  "\<exists>pre. p = pre @ leafSegment p \<and> (pre = [] \<or> last pre = CHR ''/'')"
proof -
  have "leafSegment p = last (splitSlash p)"
    by (simp add: leafSegment_def Let_def last_conv_nth splitSlash_nonempty)
  moreover obtain pre where "p = pre @ last (splitSlash p)"
    and "if length (splitSlash p) = 1 then pre = [] else pre \<noteq> [] \<and> last pre = CHR ''/''"
    using splitSlash_last_suffix[of p] by blast
  ultimately have "p = pre @ leafSegment p \<and> (pre = [] \<or> last pre = CHR ''/'')"
    by (auto split: if_splits)
  then show ?thesis by blast
qed

lemma matchProject_whole_path: "matchProject tbl query p = fuzzyMatch tbl query p"
  by (simp add: matchProject_def Let_def split: prod.splits)

lemma collectMatches_filter:
  "collectMatches tbl query ps acc =
     acc @ map (\<lambda>p. \<lparr>project = p, score = snd (matchProject tbl query p)\<rparr>)
             (filter (\<lambda>p. fst (matchProject tbl query p)) ps)"
  by (induction ps arbitrary: acc) (auto split: prod.splits)

lemma filterProjects_matches_set:
  "query \<noteq> [] \<Longrightarrow>
   set (snd (filterProjects tbl ps query)) =
     (\<lambda>p. \<lparr>project = p, score = snd (matchProject tbl query p)\<rparr>) `
       {p \<in> set ps. fst (matchProject tbl query p)}"
  by (auto simp: filterProjects_def Let_def collectMatches_filter)

lemma filterProjects_paths:
  "query \<noteq> [] \<Longrightarrow> fst (filterProjects tbl ps query) = map project (snd (filterProjects tbl ps query))"
  by (simp add: filterProjects_def Let_def)

lemma filterProjects_sorted:
  "query \<noteq> [] \<Longrightarrow> sorted (map score (snd (filterProjects tbl ps query)))"
  by (simp add: filterProjects_def Let_def)

text \<open>
  Claim C1. For a non-empty query, a project whose leaf segment matches the query is in
  the result of \<open>filterProjects\<close>, with the score of the match against the leaf segment.
  The code computes the result from the whole path; when the leaf segment matches, the
  scan from the tail ends inside the leaf segment, so both results are the same.
\<close>

theorem filterProjects_leaf_match:
  "query \<noteq> [] \<Longrightarrow> p \<in> set ps \<Longrightarrow> fst (fuzzyMatch tbl query (leafSegment p)) \<Longrightarrow>
     \<lparr>project = p, score = snd (fuzzyMatch tbl query (leafSegment p))\<rparr>
        \<in> set (snd (filterProjects tbl ps query))
   \<and> p \<in> set (fst (filterProjects tbl ps query))
   \<and> matchProject tbl query p = fuzzyMatch tbl query (leafSegment p)"
proof -
  assume q: "query \<noteq> []" and p: "p \<in> set ps" and m: "fst (fuzzyMatch tbl query (leafSegment p))"
  obtain pre where pre: "p = pre @ leafSegment p" and sep: "pre = [] \<or> last pre = CHR ''/''"
    using leafSegment_suffix by blast
  from sep have "pre = [] \<or> (of_char (last pre) :: int) < 0x80" by auto
  then have "fuzzyMatch tbl query (pre @ leafSegment p) = fuzzyMatch tbl query (leafSegment p)"
    using m by (rule fuzzyMatch_suffix)
  with pre have eq: "matchProject tbl query p = fuzzyMatch tbl query (leafSegment p)"
    by (simp add: matchProject_whole_path)
  with m p have a: "\<lparr>project = p, score = snd (fuzzyMatch tbl query (leafSegment p))\<rparr>
        \<in> set (snd (filterProjects tbl ps query))"
    by (auto simp: filterProjects_matches_set[OF q])
  then have "project \<lparr>project = p, score = snd (fuzzyMatch tbl query (leafSegment p))\<rparr>
        \<in> set (fst (filterProjects tbl ps query))"
    unfolding filterProjects_paths[OF q] set_map by (rule imageI)
  with a eq show ?thesis by simp
qed

theorem filterProjects_leaf_match_witness:
  "''foo'' \<noteq> [] \<and> ''/a/foobar'' \<in> set [''/a/foo'', ''/a/bar'', ''/a/foobar'']
   \<and> leafSegment ''/a/foobar'' = ''foobar''
   \<and> fuzzyMatch latinCyrillicTable ''foo'' ''foobar'' = (True, 2)
   \<and> \<lparr>project = ''/a/foobar'', score = 2\<rparr>
        \<in> set (snd (filterProjects latinCyrillicTable [''/a/foo'', ''/a/bar'', ''/a/foobar''] ''foo''))
   \<and> ''/a/foobar'' \<in> set (fst (filterProjects latinCyrillicTable [''/a/foo'', ''/a/bar'', ''/a/foobar''] ''foo''))"
proof -
  have l: "leafSegment ''/a/foobar'' = ''foobar''" by code_simp
  have f: "fuzzyMatch latinCyrillicTable ''foo'' ''foobar'' = (True, 2)" by code_simp
  have m: "fst (fuzzyMatch latinCyrillicTable ''foo'' (leafSegment ''/a/foobar''))" using l f by simp
  have q: "''foo'' \<noteq> []" by simp
  have p: "''/a/foobar'' \<in> set [''/a/foo'', ''/a/bar'', ''/a/foobar'']" by simp
  from filterProjects_leaf_match[OF q p m] l f show ?thesis by simp
qed

text \<open>
  Outside that case the whole path decides: the leaf segment \<open>bar\<close> does not match the
  query \<open>foo\<close>, yet the project is returned, with the score of the whole path.
\<close>

lemma filterProjects_whole_path_decides:
  "\<not> fst (fuzzyMatch latinCyrillicTable ''foo'' (leafSegment ''/fxoxo/bar''))
   \<and> filterProjects latinCyrillicTable [''/fxoxo/bar''] ''foo''
       = ([''/fxoxo/bar''], [\<lparr>project = ''/fxoxo/bar'', score = 4\<rparr>])"
  by code_simp

text \<open>
  Claim C7. For a non-empty query, a project whose computed match (the match against the
  whole path) fails is not in the result, and the scores of the returned matches never
  decrease along the list. The returned paths are the projects of the returned matches.
\<close>

theorem filterProjects_excludes_and_sorts:
  "query \<noteq> [] \<Longrightarrow>
     (\<forall>p. \<not> fst (matchProject tbl query p) \<longrightarrow>
          p \<notin> set (fst (filterProjects tbl ps query))
        \<and> p \<notin> project ` set (snd (filterProjects tbl ps query)))
   \<and> sorted (map score (snd (filterProjects tbl ps query)))
   \<and> (\<forall>i j. i \<le> j \<longrightarrow> j < length (snd (filterProjects tbl ps query)) \<longrightarrow>
          score (snd (filterProjects tbl ps query) ! i) \<le> score (snd (filterProjects tbl ps query) ! j))
   \<and> fst (filterProjects tbl ps query) = map project (snd (filterProjects tbl ps query))
   \<and> (\<forall>p. matchProject tbl query p = fuzzyMatch tbl query p)"
proof -
  assume q: "query \<noteq> []"
  have ex: "p \<notin> project ` set (snd (filterProjects tbl ps query))"
    if "\<not> fst (matchProject tbl query p)" for p
    using that by (auto simp: filterProjects_matches_set[OF q])
  have so: "sorted (map score (snd (filterProjects tbl ps query)))"
    by (rule filterProjects_sorted[OF q])
  have nth: "score (snd (filterProjects tbl ps query) ! i) \<le> score (snd (filterProjects tbl ps query) ! j)"
    if "i \<le> j" "j < length (snd (filterProjects tbl ps query))" for i j
    using sorted_nth_mono[OF so, of i j] that by simp
  from ex so nth filterProjects_paths[OF q] matchProject_whole_path show ?thesis
    by (simp add: set_map)
qed

theorem filterProjects_excludes_and_sorts_witness:
  "''foo'' \<noteq> [] \<and> \<not> fst (matchProject latinCyrillicTable ''foo'' ''/a/bar'')
   \<and> ''/a/bar'' \<notin> set (fst (filterProjects latinCyrillicTable [''/fxoxo/bar'', ''/a/bar'', ''/a/foobar''] ''foo''))
   \<and> snd (filterProjects latinCyrillicTable [''/fxoxo/bar'', ''/a/bar'', ''/a/foobar''] ''foo'')
       = [\<lparr>project = ''/a/foobar'', score = 2\<rparr>, \<lparr>project = ''/fxoxo/bar'', score = 4\<rparr>]
   \<and> sorted (map score (snd (filterProjects latinCyrillicTable [''/fxoxo/bar'', ''/a/bar'', ''/a/foobar''] ''foo'')))"
proof -
  have q: "''foo'' \<noteq> []" by simp
  have m: "\<not> fst (matchProject latinCyrillicTable ''foo'' ''/a/bar'')" by code_simp
  have r: "snd (filterProjects latinCyrillicTable [''/fxoxo/bar'', ''/a/bar'', ''/a/foobar''] ''foo'')
       = [\<lparr>project = ''/a/foobar'', score = 2\<rparr>, \<lparr>project = ''/fxoxo/bar'', score = 4\<rparr>]"
    by code_simp
  from filterProjects_excludes_and_sorts[OF q, where tbl = latinCyrillicTable
         and ps = "[''/fxoxo/bar'', ''/a/bar'', ''/a/foobar'']"] m r
  show ?thesis by blast
qed

text \<open>
  Claim C8. With the empty query \<open>filterProjects\<close> returns the projects as they are
  given, in their order, and no scores.
\<close>

theorem filterProjects_empty_query:
  "filterProjects tbl ps [] = (ps, [])"
  by (simp add: filterProjects_def)

section \<open>Properties of the traversal engine\<close>

declare walkLoop.simps [simp del]

lemma scanEntries_flags:
  "scanEntries visit current entries fl st = (fl1, st1) \<Longrightarrow>
     (continueAnyway fl1 \<longleftrightarrow> continueAnyway fl \<or> ContinueAnyway \<in> set (entrySignals visit current entries st))
   \<and> (continue' fl1 \<longleftrightarrow> continue' fl \<or> Conitinue \<in> set (entrySignals visit current entries st))
   \<and> (stopAnyway fl1 \<longleftrightarrow> stopAnyway fl \<or> StopAnyway \<in> set (entrySignals visit current entries st))
   \<and> (stop' fl1 \<longleftrightarrow> stop' fl \<or> Stop \<in> set (entrySignals visit current entries st))"
proof (induction entries arbitrary: fl st)
  case Nil
  then show ?case by simp
next
  case (Cons entry entries)
  obtain s st2 where v: "visit st current (entName entry) (entIsDir entry) = (s, st2)"
    by (cases "visit st current (entName entry) (entIsDir entry)") auto
  let ?fl2 = "case s of
              Conitinue \<Rightarrow> fl\<lparr>continue' := True\<rparr>
            | ContinueAnyway \<Rightarrow> fl\<lparr>continueAnyway := True\<rparr>
            | StopAnyway \<Rightarrow> fl\<lparr>stopAnyway := True\<rparr>
            | Stop \<Rightarrow> fl\<lparr>stop' := True\<rparr>"
  from Cons.prems v have "scanEntries visit current entries ?fl2 st2 = (fl1, st1)"
    by simp
  from Cons.IH[OF this] v show ?case
    by (cases s) auto
qed

lemma pushDirs_map:
  "pushDirs current entries stack =
     stack @ map (\<lambda>e. (joinPath current (entName e), readDirOf e)) (filter entIsDir (rev entries))"
proof -
  have "fold (\<lambda>entry stk. if entIsDir entry
                        then stk @ [(joinPath current (entName entry), readDirOf entry)]
                        else stk) xs stack
        = stack @ map (\<lambda>e. (joinPath current (entName e), readDirOf e)) (filter entIsDir xs)"
    for xs
    by (induction xs arbitrary: stack) auto
  then show ?thesis by (simp add: pushDirs_def)
qed

lemma goDeep_signals:
  "scanEntries visit current entries noFlags st = (fl, st1) \<Longrightarrow>
   goDeep fl \<longleftrightarrow>
     StopAnyway \<notin> set (entrySignals visit current entries st)
     \<and> (ContinueAnyway \<in> set (entrySignals visit current entries st)
        \<or> (Conitinue \<in> set (entrySignals visit current entries st)
           \<and> Stop \<notin> set (entrySignals visit current entries st)))"
  using scanEntries_flags[of visit current entries noFlags st fl st1]
  by (auto simp: goDeep_def noFlags_def Let_def)

lemma walkStep_stack:
  "fst (walkStep visit (rest @ [(current, Some entries)]) st visited) =
     rest @
     (if StopAnyway \<notin> set (entrySignals visit current entries st)
         \<and> (ContinueAnyway \<in> set (entrySignals visit current entries st)
            \<or> (Conitinue \<in> set (entrySignals visit current entries st)
               \<and> Stop \<notin> set (entrySignals visit current entries st)))
      then map (\<lambda>e. (joinPath current (entName e), readDirOf e)) (filter entIsDir (rev entries))
      else [])"
proof -
  obtain fl st1 where sc: "scanEntries visit current entries noFlags st = (fl, st1)"
    by (cases "scanEntries visit current entries noFlags st") auto
  have "fst (walkStep visit (rest @ [(current, Some entries)]) st visited)
        = (if goDeep fl then pushDirs current entries rest else rest)"
    using sc by (simp add: walkStep_def Let_def)
  then show ?thesis
    using goDeep_signals[OF sc] by (simp add: pushDirs_map)
qed

text \<open>
  Claim C3. When the loop of \<open>walkFast\<close> processes a directory that can be read, each of
  the four flags is set exactly when some entry produced its signal, and the directories
  among the entries are pushed (in reverse order) exactly when no entry produced
  \<open>StopAnyway\<close> and either some entry produced \<open>ContinueAnyway\<close>, or some entry produced
  \<open>Conitinue\<close> and none produced \<open>Stop\<close>; otherwise nothing is pushed. The loop goes on
  with that stack.
\<close>

theorem walkFast_descend_decision:
  "fst (walkStep visit (rest @ [(current, Some entries)]) st visited) =
     rest @
     (if StopAnyway \<notin> set (entrySignals visit current entries st)
         \<and> (ContinueAnyway \<in> set (entrySignals visit current entries st)
            \<or> (Conitinue \<in> set (entrySignals visit current entries st)
               \<and> Stop \<notin> set (entrySignals visit current entries st)))
      then map (\<lambda>e. (joinPath current (entName e), readDirOf e)) (filter entIsDir (rev entries))
      else [])
   \<and> (stopAnyway (fst (scanEntries visit current entries noFlags st))
        \<longleftrightarrow> StopAnyway \<in> set (entrySignals visit current entries st))
   \<and> (continueAnyway (fst (scanEntries visit current entries noFlags st))
        \<longleftrightarrow> ContinueAnyway \<in> set (entrySignals visit current entries st))
   \<and> (continue' (fst (scanEntries visit current entries noFlags st))
        \<longleftrightarrow> Conitinue \<in> set (entrySignals visit current entries st))
   \<and> (stop' (fst (scanEntries visit current entries noFlags st))
        \<longleftrightarrow> Stop \<in> set (entrySignals visit current entries st))
   \<and> walkLoop visit (rest @ [(current, Some entries)]) st visited =
       (case walkStep visit (rest @ [(current, Some entries)]) st visited of
          (stack1, st1, visited1) \<Rightarrow> walkLoop visit stack1 st1 visited1)"
proof -
  obtain fl st1 where sc: "scanEntries visit current entries noFlags st = (fl, st1)"
    by (cases "scanEntries visit current entries noFlags st") auto
  have fl: "(stopAnyway fl \<longleftrightarrow> StopAnyway \<in> set (entrySignals visit current entries st))
     \<and> (continueAnyway fl \<longleftrightarrow> ContinueAnyway \<in> set (entrySignals visit current entries st))
     \<and> (continue' fl \<longleftrightarrow> Conitinue \<in> set (entrySignals visit current entries st))
     \<and> (stop' fl \<longleftrightarrow> Stop \<in> set (entrySignals visit current entries st))"
    using scanEntries_flags[OF sc] by (simp add: noFlags_def)
  have lp: "walkLoop visit (rest @ [(current, Some entries)]) st visited =
       (case walkStep visit (rest @ [(current, Some entries)]) st visited of
          (stack1, st1, visited1) \<Rightarrow> walkLoop visit stack1 st1 visited1)"
    by (subst walkLoop.simps) simp
  from walkStep_stack[of visit rest current entries st visited] fl lp sc show ?thesis
    by simp
qed

theorem walkFast_descend_decision_witness:
  "entrySignals findVisit ''/r'' [File ''go.mod'', File ''go.work'', Dir ''sub'' [], File ''notes''] \<lparr>projects = [], seen = {}\<rparr>
     = [Stop, ContinueAnyway, Conitinue, Conitinue]
   \<and> fst (walkStep findVisit ([] @ [(''/r'', Some [File ''go.mod'', File ''go.work'', Dir ''sub'' [], File ''notes''])])
            \<lparr>projects = [], seen = {}\<rparr> [])
     = [(''/r/sub'', Some [])]
   \<and> entrySignals findVisit ''/r'' [File ''go.mod'', Dir ''sub'' [], File ''notes''] \<lparr>projects = [], seen = {}\<rparr>
     = [Stop, Conitinue, Conitinue]
   \<and> fst (walkStep findVisit ([] @ [(''/r'', Some [File ''go.mod'', Dir ''sub'' [], File ''notes''])])
            \<lparr>projects = [], seen = {}\<rparr> [])
     = []"
proof -
  have s1: "entrySignals findVisit ''/r'' [File ''go.mod'', File ''go.work'', Dir ''sub'' [], File ''notes'']
        \<lparr>projects = [], seen = {}\<rparr> = [Stop, ContinueAnyway, Conitinue, Conitinue]"
    by code_simp
  have s2: "entrySignals findVisit ''/r'' [File ''go.mod'', Dir ''sub'' [], File ''notes'']
        \<lparr>projects = [], seen = {}\<rparr> = [Stop, Conitinue, Conitinue]"
    by code_simp
  from walkFast_descend_decision[of findVisit "[]" "''/r''"
         "[File ''go.mod'', File ''go.work'', Dir ''sub'' [], File ''notes'']" "\<lparr>projects = [], seen = {}\<rparr>" "[]"]
  have a: "fst (walkStep findVisit ([] @ [(''/r'', Some [File ''go.mod'', File ''go.work'', Dir ''sub'' [], File ''notes''])])
            \<lparr>projects = [], seen = {}\<rparr> []) = [(''/r/sub'', Some [])]"
    unfolding s1 by (simp add: joinPath_def)
  from walkFast_descend_decision[of findVisit "[]" "''/r''"
         "[File ''go.mod'', Dir ''sub'' [], File ''notes'']" "\<lparr>projects = [], seen = {}\<rparr>" "[]"]
  have b: "fst (walkStep findVisit ([] @ [(''/r'', Some [File ''go.mod'', Dir ''sub'' [], File ''notes''])])
            \<lparr>projects = [], seen = {}\<rparr> []) = []"
    unfolding s2 by simp
  from s1 s2 a b show ?thesis by blast
qed

section \<open>Properties of the project detector\<close>

lemma findVisit_signal: "fst (findVisit st path name isDir) = nameSignal name"
  by (simp add: findVisit_def nameSignal_def)

lemma entrySignals_findVisit:
  "entrySignals findVisit current entries st = map (\<lambda>e. nameSignal (entName e)) entries"
proof (induction entries arbitrary: st)
  case Nil
  show ?case by simp
next
  case (Cons e es)
  obtain s st1 where v: "findVisit st current (entName e) (entIsDir e) = (s, st1)"
    by (cases "findVisit st current (entName e) (entIsDir e)") auto
  then have "s = nameSignal (entName e)"
    using findVisit_signal[of st current "entName e" "entIsDir e"] by simp
  with v Cons show ?case by simp
qed

lemma walkStep_findVisit_Some:
  "walkStep findVisit (rest @ [(current, Some entries)]) st visited =
     (rest @ (if descends entries
              then map (\<lambda>e. (joinPath current (entName e), readDirOf e)) (filter entIsDir (rev entries))
              else []),
      snd (scanEntries findVisit current entries noFlags st),
      visited @ [(current, Some entries)])"
proof -
  have d: "descends entries \<longleftrightarrow>
     StopAnyway \<notin> set (entrySignals findVisit current entries st)
     \<and> (ContinueAnyway \<in> set (entrySignals findVisit current entries st)
        \<or> (Conitinue \<in> set (entrySignals findVisit current entries st)
           \<and> Stop \<notin> set (entrySignals findVisit current entries st)))"
    by (simp add: descends_def entrySignals_findVisit image_image)
  have "fst (walkStep findVisit (rest @ [(current, Some entries)]) st visited) =
     rest @ (if descends entries
              then map (\<lambda>e. (joinPath current (entName e), readDirOf e)) (filter entIsDir (rev entries))
              else [])"
    unfolding d by (rule walkStep_stack)
  moreover have "snd (walkStep findVisit (rest @ [(current, Some entries)]) st visited) =
      (snd (scanEntries findVisit current entries noFlags st), visited @ [(current, Some entries)])"
    by (simp add: walkStep_def Let_def split: prod.splits)
  ultimately show ?thesis by (metis prod.collapse)
qed

lemma walkStep_None:
  "walkStep visit (rest @ [(current, None)]) st visited = (rest, st, visited @ [(current, None)])"
  by (simp add: walkStep_def Let_def)

lemma walkLoop_Nil: "walkLoop visit [] st visited = (st, visited)"
  by (subst walkLoop.simps) simp

lemma walkLoop_snoc:
  "walkLoop visit (rest @ [fr]) st visited =
     (let (stack1, st1, visited1) = walkStep visit (rest @ [fr]) st visited
      in walkLoop visit stack1 st1 visited1)"
  by (subst walkLoop.simps) simp

lemma dfs_children:
  "concat (map dfsFrame (map (\<lambda>e. (joinPath current (entName e), readDirOf e)) (filter entIsDir es)))
   = concat (map (dfsEntry current) es)"
proof (induction es)
  case Nil
  show ?case by simp
next
  case (Cons e es)
  then show ?case by (cases e) simp_all
qed

lemma walkLoop_findVisit_visited:
  "snd (walkLoop findVisit stack st visited) = visited @ concat (map dfsFrame (rev stack))"
proof (induction findVisit stack st visited rule: walkLoop.induct)
  case (1 stack st visited)
  show ?case
  proof (cases stack rule: rev_cases)
    case Nil
    then show ?thesis by (simp add: walkLoop_Nil)
  next
    case (snoc rest fr)
    obtain current rd where fr: "fr = (current, rd)" by (cases fr) auto
    have len: "0 < length stack" using snoc by simp
    show ?thesis
    proof (cases rd)
      case None
      have step: "walkStep findVisit stack st visited = (rest, st, visited @ [fr])"
        using snoc fr None by (simp add: walkStep_None)
      have "snd (walkLoop findVisit rest st (visited @ [fr]))
            = (visited @ [fr]) @ concat (map dfsFrame (rev rest))"
        by (rule "1.hyps"[OF len step[symmetric] refl refl])
      then show ?thesis
        using snoc fr None step by (simp add: walkLoop_snoc)
    next
      case (Some es)
      let ?kids = "if descends es
              then map (\<lambda>e. (joinPath current (entName e), readDirOf e)) (filter entIsDir (rev es))
              else []"
      let ?st1 = "snd (scanEntries findVisit current es noFlags st)"
      have step: "walkStep findVisit stack st visited = (rest @ ?kids, ?st1, visited @ [fr])"
        using snoc fr Some by (simp add: walkStep_findVisit_Some)
      have ih: "snd (walkLoop findVisit (rest @ ?kids) ?st1 (visited @ [fr]))
            = (visited @ [fr]) @ concat (map dfsFrame (rev (rest @ ?kids)))"
        by (rule "1.hyps"[OF len step[symmetric] refl refl])
      have "concat (map dfsFrame (rev ?kids)) =
            (if descends es then concat (map (dfsEntry current) es) else [])"
        using dfs_children[of current es] by (simp add: rev_map rev_filter)
      then have "concat (map dfsFrame (rev (rest @ ?kids)))
          = (if descends es then concat (map (dfsEntry current) es) else [])
            @ concat (map dfsFrame (rev rest))"
        by simp
      with ih have "snd (walkLoop findVisit (rest @ ?kids) ?st1 (visited @ [fr]))
            = visited @ dfsFrame fr @ concat (map dfsFrame (rev rest))"
        using fr Some by simp
      then show ?thesis
        using snoc step by (simp add: walkLoop_snoc)
    qed
  qed
qed

lemma walkFast_findVisit_visited:
  "snd (walkFast root rd findVisit st) = dfsFrame (root, rd)"
  by (simp add: walkFast_def walkLoop_findVisit_visited)

lemma marker_not_skipped: "name \<in> set projectMarkers \<Longrightarrow> name \<notin> set skipDirs"
  by (auto simp: projectMarkers_def skipDirs_def)

lemma findVisit_state:
  "findVisit st current name isDir = (s, st1) \<Longrightarrow> seen st \<subseteq> set (projects st) \<Longrightarrow>
     seen st1 \<subseteq> set (projects st1) \<and> set (projects st) \<subseteq> set (projects st1)
   \<and> (name \<in> set projectMarkers \<longrightarrow> current \<in> set (projects st1))"
  by (auto simp: findVisit_def marker_not_skipped split: if_splits)

lemma scanEntries_findVisit_state:
  "scanEntries findVisit current entries fl st = (fl1, st1) \<Longrightarrow> seen st \<subseteq> set (projects st) \<Longrightarrow>
     seen st1 \<subseteq> set (projects st1) \<and> set (projects st) \<subseteq> set (projects st1)
   \<and> ((\<exists>e \<in> set entries. entName e \<in> set projectMarkers) \<longrightarrow> current \<in> set (projects st1))"
proof (induction entries arbitrary: fl st)
  case Nil
  then show ?case by simp
next
  case (Cons e es)
  obtain s st2 where v: "findVisit st current (entName e) (entIsDir e) = (s, st2)"
    by (cases "findVisit st current (entName e) (entIsDir e)") auto
  from findVisit_state[OF v Cons.prems(2)]
  have a: "seen st2 \<subseteq> set (projects st2)" and b: "set (projects st) \<subseteq> set (projects st2)"
    and c: "entName e \<in> set projectMarkers \<longrightarrow> current \<in> set (projects st2)" by auto
  from Cons.prems(1) v obtain fl2 where "scanEntries findVisit current es fl2 st2 = (fl1, st1)"
    by auto
  from Cons.IH[OF this a] b c show ?case by auto
qed

lemma walkLoop_findVisit_state:
  "walkLoop findVisit stack st visited = (st1, visited1) \<Longrightarrow> seen st \<subseteq> set (projects st) \<Longrightarrow>
     seen st1 \<subseteq> set (projects st1) \<and> set (projects st) \<subseteq> set (projects st1)
   \<and> (\<forall>d es. (d, Some es) \<in> set (concat (map dfsFrame (rev stack)))
          \<longrightarrow> (\<exists>e \<in> set es. entName e \<in> set projectMarkers)
          \<longrightarrow> d \<in> set (projects st1))"
proof (induction findVisit stack st visited arbitrary: st1 visited1 rule: walkLoop.induct)
  case (1 stack st visited)
  show ?case
  proof (cases stack rule: rev_cases)
    case Nil
    with "1.prems" show ?thesis by (simp add: walkLoop_Nil)
  next
    case (snoc rest fr)
    obtain current rd where fr: "fr = (current, rd)" by (cases fr) auto
    have len: "0 < length stack" using snoc by simp
    show ?thesis
    proof (cases rd)
      case None
      have step: "walkStep findVisit stack st visited = (rest, st, visited @ [fr])"
        using snoc fr None by (simp add: walkStep_None)
      have run: "walkLoop findVisit rest st (visited @ [fr]) = (st1, visited1)"
        using "1.prems"(1) snoc step by (simp add: walkLoop_snoc)
      from "1.hyps"[OF len step[symmetric] refl refl run "1.prems"(2)]
      show ?thesis using snoc fr None by auto
    next
      case (Some es)
      let ?kids = "if descends es
              then map (\<lambda>e. (joinPath current (entName e), readDirOf e)) (filter entIsDir (rev es))
              else []"
      obtain fl st2 where sc: "scanEntries findVisit current es noFlags st = (fl, st2)"
        by (cases "scanEntries findVisit current es noFlags st") auto
      have step: "walkStep findVisit stack st visited = (rest @ ?kids, st2, visited @ [fr])"
        using snoc fr Some sc by (simp add: walkStep_findVisit_Some)
      have run: "walkLoop findVisit (rest @ ?kids) st2 (visited @ [fr]) = (st1, visited1)"
        using "1.prems"(1) snoc step by (simp add: walkLoop_snoc)
      from scanEntries_findVisit_state[OF sc "1.prems"(2)]
      have a: "seen st2 \<subseteq> set (projects st2)" and b: "set (projects st) \<subseteq> set (projects st2)"
        and c: "(\<exists>e \<in> set es. entName e \<in> set projectMarkers) \<longrightarrow> current \<in> set (projects st2)"
        by auto
      from "1.hyps"[OF len step[symmetric] refl refl run a]
      have i1: "seen st1 \<subseteq> set (projects st1)" and i2: "set (projects st2) \<subseteq> set (projects st1)"
        and i3: "\<forall>d es'. (d, Some es') \<in> set (concat (map dfsFrame (rev (rest @ ?kids))))
          \<longrightarrow> (\<exists>e \<in> set es'. entName e \<in> set projectMarkers)
          \<longrightarrow> d \<in> set (projects st1)" by blast+
      have kids: "concat (map dfsFrame (rev ?kids)) =
            (if descends es then concat (map (dfsEntry current) es) else [])"
        using dfs_children[of current es] by (simp add: rev_map rev_filter)
      have all: "set (concat (map dfsFrame (rev stack)))
          = insert fr (set (concat (map dfsFrame (rev (rest @ ?kids)))))"
      proof -
        have "concat (map dfsFrame (rev stack))
            = fr # concat (map dfsFrame (rev ?kids)) @ concat (map dfsFrame (rev rest))"
          unfolding kids using snoc fr Some by simp
        then show ?thesis by auto
      qed
      have "d \<in> set (projects st1)"
        if m: "(d, Some es') \<in> set (concat (map dfsFrame (rev stack)))"
          and h: "\<exists>e \<in> set es'. entName e \<in> set projectMarkers" for d es'
      proof (cases "(d, Some es') = fr")
        case True
        with fr Some have "d = current" "es' = es" by auto
        with c h i2 show ?thesis by auto
      next
        case False
        with m all have "(d, Some es') \<in> set (concat (map dfsFrame (rev (rest @ ?kids))))"
          by auto
        with i3 h show ?thesis by blast
      qed
      with i1 i2 b show ?thesis by blast
    qed
  qed
qed

lemma findLoop_visited:
  "snd (findLoop baseDirs st visited) = visited @ concat (map dfsFrame baseDirs)"
proof (induction baseDirs arbitrary: st visited)
  case Nil
  show ?case by simp
next
  case (Cons base baseDirs)
  obtain root rd where b: "base = (root, rd)" by (cases base) auto
  obtain st1 v where w: "walkFast root rd findVisit st = (st1, v)"
    by (cases "walkFast root rd findVisit st") auto
  then have "v = dfsFrame (root, rd)"
    using walkFast_findVisit_visited[of root rd st] by simp
  with Cons[of st1 "visited @ v"] w b show ?case by simp
qed

lemma findLoop_state:
  "findLoop baseDirs st visited = (st1, visited1) \<Longrightarrow> seen st \<subseteq> set (projects st) \<Longrightarrow>
     seen st1 \<subseteq> set (projects st1) \<and> set (projects st) \<subseteq> set (projects st1)
   \<and> (\<forall>d es. (d, Some es) \<in> set (concat (map dfsFrame baseDirs))
          \<longrightarrow> (\<exists>e \<in> set es. entName e \<in> set projectMarkers)
          \<longrightarrow> d \<in> set (projects st1))"
proof (induction baseDirs arbitrary: st visited)
  case Nil
  then show ?case by simp
next
  case (Cons base baseDirs)
  obtain root rd where b: "base = (root, rd)" by (cases base) auto
  obtain st2 v where w: "walkFast root rd findVisit st = (st2, v)"
    by (cases "walkFast root rd findVisit st") auto
  then have wl: "walkLoop findVisit [(root, rd)] st [] = (st2, v)" by (simp add: walkFast_def)
  from walkLoop_findVisit_state[OF wl Cons.prems(2)]
  have a: "seen st2 \<subseteq> set (projects st2)" and m: "set (projects st) \<subseteq> set (projects st2)"
    and c: "\<forall>d es. (d, Some es) \<in> set (dfsFrame (root, rd))
          \<longrightarrow> (\<exists>e \<in> set es. entName e \<in> set projectMarkers)
          \<longrightarrow> d \<in> set (projects st2)" by simp_all
  from Cons.prems(1) b w have run: "findLoop baseDirs st2 (visited @ v) = (st1, visited1)"
    by simp
  from Cons.IH[OF run a]
  have i1: "seen st1 \<subseteq> set (projects st1)" and i2: "set (projects st2) \<subseteq> set (projects st1)"
    and i3: "\<forall>d es. (d, Some es) \<in> set (concat (map dfsFrame baseDirs))
          \<longrightarrow> (\<exists>e \<in> set es. entName e \<in> set projectMarkers)
          \<longrightarrow> d \<in> set (projects st1)" by blast+
  have "d \<in> set (projects st1)"
    if mem: "(d, Some es) \<in> set (concat (map dfsFrame (base # baseDirs)))"
      and h: "\<exists>e \<in> set es. entName e \<in> set projectMarkers" for d es
  proof (cases "(d, Some es) \<in> set (dfsFrame (root, rd))")
    case True
    with c h have "d \<in> set (projects st2)" by blast
    with i2 show ?thesis by blast
  next
    case False
    with mem b have "(d, Some es) \<in> set (concat (map dfsFrame baseDirs))" by simp
    with i3 h show ?thesis by blast
  qed
  with i1 i2 m show ?case by blast
qed

lemma dfsEntry_head:
  "entIsDir x \<Longrightarrow> (joinPath p (entName x), readDirOf x) \<in> set (dfsEntry p x)"
  by (cases x) simp_all

lemma dfsEntry_children_visited:
  "(d, Some es) \<in> set (dfsEntry cur e) \<Longrightarrow> descends es \<Longrightarrow> x \<in> set es \<Longrightarrow> entIsDir x \<Longrightarrow>
   (joinPath d (entName x), readDirOf x) \<in> set (dfsEntry cur e)"
proof (induction e arbitrary: cur)
  case (File n)
  then show ?case by simp
next
  case (Locked n)
  then show ?case by simp
next
  case (Dir n es0)
  let ?p = "joinPath cur n"
  show ?case
  proof (cases "(d, Some es) = (?p, Some es0)")
    case True
    then have "d = ?p" "es = es0" by auto
    with Dir.prems dfsEntry_head[of x ?p] show ?thesis by auto
  next
    case False
    with Dir.prems(1) have de: "descends es0"
      and "(d, Some es) \<in> set (concat (map (dfsEntry ?p) es0))"
      by (auto split: if_splits)
    then obtain c where c: "c \<in> set es0" "(d, Some es) \<in> set (dfsEntry ?p c)" by auto
    from Dir.IH[OF c(1) c(2) Dir.prems(2,3,4)] c(1) de show ?thesis by auto
  qed
qed

lemma dfsFrame_children_visited:
  "(d, Some es) \<in> set (dfsFrame fr) \<Longrightarrow> descends es \<Longrightarrow> x \<in> set es \<Longrightarrow> entIsDir x \<Longrightarrow>
   (joinPath d (entName x), readDirOf x) \<in> set (dfsFrame fr)"
proof -
  assume m: "(d, Some es) \<in> set (dfsFrame fr)" and de: "descends es"
    and x: "x \<in> set es" "entIsDir x"
  obtain p rd where fr: "fr = (p, rd)" by (cases fr) auto
  show ?thesis
  proof (cases rd)
    case None
    with m fr show ?thesis by simp
  next
    case (Some es0)
    show ?thesis
    proof (cases "(d, Some es) = (p, Some es0)")
      case True
      then have "d = p" "es = es0" by auto
      with de x fr Some dfsEntry_head[of x p] show ?thesis by auto
    next
      case False
      with m fr Some have de0: "descends es0"
        and "(d, Some es) \<in> set (concat (map (dfsEntry p) es0))"
        by (auto split: if_splits)
      then obtain c where c: "c \<in> set es0" "(d, Some es) \<in> set (dfsEntry p c)" by auto
      from dfsEntry_children_visited[OF c(2) de x] c(1) de0 fr Some show ?thesis by auto
    qed
  qed
qed

lemma override_descends:
  "\<exists>e \<in> set es. entName e = ''go.work'' \<Longrightarrow> \<forall>e \<in> set es. entName e \<notin> set skipDirs \<Longrightarrow>
   descends es"
proof -
  assume w: "\<exists>e \<in> set es. entName e = ''go.work''" and s: "\<forall>e \<in> set es. entName e \<notin> set skipDirs"
  have "nameSignal ''go.work'' = ContinueAnyway"
    by (simp add: nameSignal_def skipDirs_def projectMarkers_def)
  with w have "ContinueAnyway \<in> nameSignal ` entName ` set es" by force
  moreover have "StopAnyway \<notin> nameSignal ` entName ` set es"
    using s by (auto simp: nameSignal_def split: if_splits)
  ultimately show ?thesis by (simp add: descends_def)
qed

lemma skip_not_descends:
  "\<exists>e \<in> set es. entName e \<in> set skipDirs \<Longrightarrow> \<not> descends es"
proof -
  assume "\<exists>e \<in> set es. entName e \<in> set skipDirs"
  then obtain e where "e \<in> set es" "nameSignal (entName e) = StopAnyway"
    by (auto simp: nameSignal_def)
  then have "StopAnyway \<in> nameSignal ` entName ` set es" by force
  then show ?thesis by (simp add: descends_def)
qed

text \<open>
  Claim C6. A directory that \<open>findProjects\<close> visits and that holds a marker entry and
  the entry \<open>go.work\<close>, and no entry with a skip name, is among the projects returned,
  and each of its subdirectories is visited.
\<close>

theorem findProjects_override_descends:
  "(d, Some es) \<in> set (findVisited baseDirs) \<Longrightarrow>
   \<exists>e \<in> set es. entName e \<in> set projectMarkers \<Longrightarrow>
   \<exists>e \<in> set es. entName e = ''go.work'' \<Longrightarrow>
   \<forall>e \<in> set es. entName e \<notin> set skipDirs \<Longrightarrow>
     d \<in> set (findProjects baseDirs)
   \<and> (\<forall>x \<in> set es. entIsDir x \<longrightarrow>
         (joinPath d (entName x), readDirOf x) \<in> set (findVisited baseDirs))"
proof -
  assume v: "(d, Some es) \<in> set (findVisited baseDirs)"
    and m: "\<exists>e \<in> set es. entName e \<in> set projectMarkers"
    and w: "\<exists>e \<in> set es. entName e = ''go.work''"
    and s: "\<forall>e \<in> set es. entName e \<notin> set skipDirs"
  let ?init = "\<lparr>projects = [], seen = {}\<rparr>"
  have vis: "findVisited baseDirs = concat (map dfsFrame baseDirs)"
    by (simp add: findVisited_def findLoop_visited)
  obtain st1 v1 where run: "findLoop baseDirs ?init [] = (st1, v1)"
    by (cases "findLoop baseDirs ?init []") auto
  have "seen ?init \<subseteq> set (projects ?init)" by simp
  from findLoop_state[OF run this]
  have "\<forall>d es. (d, Some es) \<in> set (concat (map dfsFrame baseDirs))
          \<longrightarrow> (\<exists>e \<in> set es. entName e \<in> set projectMarkers)
          \<longrightarrow> d \<in> set (projects st1)" by blast
  moreover from v vis have "(d, Some es) \<in> set (concat (map dfsFrame baseDirs))" by simp
  ultimately have "d \<in> set (projects st1)" using m by blast
  then have p: "d \<in> set (findProjects baseDirs)" using run by (simp add: findProjects_def)
  from v vis obtain base where b: "base \<in> set baseDirs" "(d, Some es) \<in> set (dfsFrame base)"
    by auto
  have "(joinPath d (entName x), readDirOf x) \<in> set (findVisited baseDirs)"
    if "x \<in> set es" "entIsDir x" for x
    using dfsFrame_children_visited[OF b(2) override_descends[OF w s] that] b(1) vis by auto
  with p show ?thesis by blast
qed

theorem findProjects_override_descends_witness:
  "(''/r'', Some [File ''go.mod'', File ''go.work'', Dir ''sub'' [File ''Makefile'']])
       \<in> set (findVisited [(''/r'', Some [File ''go.mod'', File ''go.work'', Dir ''sub'' [File ''Makefile'']])])
   \<and> entName (File ''go.mod'') \<in> set projectMarkers
   \<and> entName (File ''go.work'') = ''go.work''
   \<and> ''/r'' \<in> set (findProjects [(''/r'', Some [File ''go.mod'', File ''go.work'', Dir ''sub'' [File ''Makefile'']])])
   \<and> (''/r/sub'', Some [File ''Makefile''])
       \<in> set (findVisited [(''/r'', Some [File ''go.mod'', File ''go.work'', Dir ''sub'' [File ''Makefile'']])])"
proof -
  let ?es = "[File ''go.mod'', File ''go.work'', Dir ''sub'' [File ''Makefile'']]"
  let ?b = "[(''/r'', Some ?es)]"
  have v: "findVisited ?b = [(''/r'', Some ?es), (''/r/sub'', Some [File ''Makefile''])]"
    by code_simp
  have m: "(''/r'', Some ?es) \<in> set (findVisited ?b)" unfolding v by simp
  have mk: "entName (File ''go.mod'') \<in> set projectMarkers" by (simp add: projectMarkers_def)
  then have h1: "\<exists>e \<in> set ?es. entName e \<in> set projectMarkers" by simp
  have h2: "\<exists>e \<in> set ?es. entName e = ''go.work''" by simp
  have h3: "\<forall>e \<in> set ?es. entName e \<notin> set skipDirs" by (simp add: skipDirs_def)
  from findProjects_override_descends[OF m h1 h2 h3]
  have "''/r'' \<in> set (findProjects ?b)"
    and "(joinPath ''/r'' (entName (Dir ''sub'' [File ''Makefile''])),
          readDirOf (Dir ''sub'' [File ''Makefile''])) \<in> set (findVisited ?b)"
    by simp_all
  then show ?thesis using m mk by (simp add: joinPath_def)
qed

lemma atOrBelow_refl: "atOrBelow p p"
  by (simp add: atOrBelow_def)

lemma atOrBelow_join: "atOrBelow d q \<Longrightarrow> atOrBelow d (joinPath q n)"
proof -
  assume "atOrBelow d q"
  then obtain s where s: "q = d @ s" "s = [] \<or> hd s = CHR ''/''" by (auto simp: atOrBelow_def)
  have "joinPath q n = d @ (s @ ''/'' @ n)" using s(1) by (simp add: joinPath_def)
  moreover have "hd (s @ ''/'' @ n) = CHR ''/''" using s(2) by (cases s) auto
  ultimately show ?thesis unfolding atOrBelow_def by blast
qed

lemma atOrBelow_trans: "atOrBelow a b \<Longrightarrow> atOrBelow b c \<Longrightarrow> atOrBelow a c"
proof -
  assume "atOrBelow a b" "atOrBelow b c"
  then obtain s t where s: "b = a @ s" "s = [] \<or> hd s = CHR ''/''"
    and t: "c = b @ t" "t = [] \<or> hd t = CHR ''/''" by (auto simp: atOrBelow_def)
  have "c = a @ (s @ t)" using s(1) t(1) by simp
  moreover have "s @ t = [] \<or> hd (s @ t) = CHR ''/''" using s(2) t(2) by (cases s) auto
  ultimately show ?thesis unfolding atOrBelow_def by blast
qed

lemma atOrBelow_child: "atOrBelow d (joinPath d n)"
  by (simp add: atOrBelow_join atOrBelow_refl)

lemma atOrBelow_parent: "atOrBelow (joinPath p n) q \<Longrightarrow> atOrBelow p q"
proof -
  assume "atOrBelow (joinPath p n) q"
  then obtain s where "q = p @ (''/'' @ n @ s)" by (auto simp: atOrBelow_def joinPath_def)
  moreover have "hd (''/'' @ n @ s) = CHR ''/''" by simp
  ultimately show ?thesis unfolding atOrBelow_def by blast
qed

lemma atOrBelow_length: "atOrBelow p q \<Longrightarrow> length p \<le> length q"
  by (auto simp: atOrBelow_def)

lemma joinPath_longer: "length q < length (joinPath q n)"
  by (simp add: joinPath_def)

lemma name_of_tail:
  "CHR ''/'' \<notin> set n \<Longrightarrow> s = [] \<or> hd s = CHR ''/'' \<Longrightarrow> takeWhile (\<lambda>c. c \<noteq> CHR ''/'') (n @ s) = n"
proof -
  assume n: "CHR ''/'' \<notin> set n" and s: "s = [] \<or> hd s = CHR ''/''"
  have "takeWhile (\<lambda>c. c \<noteq> CHR ''/'') s = []" using s by (cases s) auto
  moreover have "takeWhile (\<lambda>c. c \<noteq> CHR ''/'') (n @ s) = n @ takeWhile (\<lambda>c. c \<noteq> CHR ''/'') s"
    using n by (intro takeWhile_append2) auto
  ultimately show ?thesis by simp
qed

lemma siblings_apart:
  assumes "CHR ''/'' \<notin> set n1" "CHR ''/'' \<notin> set n2"
    and "atOrBelow (joinPath p n1) q" "atOrBelow (joinPath p n2) q"
  shows "n1 = n2"
proof -
  from assms(3) obtain s1 where s1: "q = p @ ''/'' @ n1 @ s1" "s1 = [] \<or> hd s1 = CHR ''/''"
    by (auto simp: atOrBelow_def joinPath_def)
  from assms(4) obtain s2 where s2: "q = p @ ''/'' @ n2 @ s2" "s2 = [] \<or> hd s2 = CHR ''/''"
    by (auto simp: atOrBelow_def joinPath_def)
  from s1(1) s2(1) have "n1 @ s1 = n2 @ s2" by simp
  then have "takeWhile (\<lambda>c. c \<noteq> CHR ''/'') (n1 @ s1) = takeWhile (\<lambda>c. c \<noteq> CHR ''/'') (n2 @ s2)"
    by simp
  then show ?thesis
    using name_of_tail[OF assms(1) s1(2)] name_of_tail[OF assms(2) s2(2)] by simp
qed

lemma dfsEntry_below:
  "(q, r) \<in> set (dfsEntry cur e) \<Longrightarrow> atOrBelow (joinPath cur (entName e)) q"
proof (induction e arbitrary: cur)
  case (File n)
  then show ?case by simp
next
  case (Locked n)
  then show ?case by (simp add: atOrBelow_refl)
next
  case (Dir n es0)
  show ?case
  proof (cases "q = joinPath cur n")
    case True
    then show ?thesis by (simp add: atOrBelow_refl)
  next
    case False
    with Dir.prems obtain c where c: "c \<in> set es0" "(q, r) \<in> set (dfsEntry (joinPath cur n) c)"
      by (auto split: if_splits)
    from Dir.IH[OF c] have "atOrBelow (joinPath (joinPath cur n) (entName c)) q" .
    then show ?thesis using atOrBelow_parent by simp
  qed
qed

lemma wfEntry_name: "wfEntry e \<Longrightarrow> CHR ''/'' \<notin> set (entName e)"
  by (cases e) auto

lemma skip_step:
  assumes names: "distinct (map entName es0)" and wf: "\<forall>c \<in> set es0. wfEntry c"
    and ih: "\<And>c d es q r. c \<in> set es0 \<Longrightarrow> (d, Some es) \<in> set (dfsEntry p c) \<Longrightarrow>
               \<exists>e \<in> set es. entName e \<in> set skipDirs \<Longrightarrow>
               (q, r) \<in> set (dfsEntry p c) \<Longrightarrow> atOrBelow d q \<Longrightarrow> q = d"
    and mem: "(d, Some es) \<in> set ((p, Some es0) #
                (if descends es0 then concat (map (dfsEntry p) es0) else []))"
    and skip: "\<exists>e \<in> set es. entName e \<in> set skipDirs"
    and qmem: "(q, r) \<in> set ((p, Some es0) #
                (if descends es0 then concat (map (dfsEntry p) es0) else []))"
    and below: "atOrBelow d q"
  shows "q = d"
proof (cases "(d, Some es) = (p, Some es0)")
  case True
  then have "d = p" "es = es0" by auto
  with skip have "\<not> descends es0" using skip_not_descends by blast
  with qmem \<open>d = p\<close> show ?thesis by simp
next
  case False
  with mem have de: "descends es0" and "(d, Some es) \<in> set (concat (map (dfsEntry p) es0))"
    by (auto split: if_splits)
  then obtain c where c: "c \<in> set es0" "(d, Some es) \<in> set (dfsEntry p c)" by auto
  have cd: "atOrBelow (joinPath p (entName c)) d" using dfsEntry_below[OF c(2)] .
  then have cq: "atOrBelow (joinPath p (entName c)) q" using below by (rule atOrBelow_trans)
  have "length p < length q"
    using atOrBelow_length[OF cq] joinPath_longer[of p "entName c"] by simp
  then have "q \<noteq> p" by auto
  with qmem de obtain c' where c': "c' \<in> set es0" "(q, r) \<in> set (dfsEntry p c')"
    by (auto split: if_splits)
  have "atOrBelow (joinPath p (entName c')) q" using c'(2) by (rule dfsEntry_below)
  from siblings_apart[OF _ _ this cq] wf c'(1) c(1) wfEntry_name
  have "entName c' = entName c" by blast
  moreover have "inj_on entName (set es0)" using names by (simp add: distinct_map)
  ultimately have "c' = c" using c'(1) c(1) by (auto dest: inj_onD)
  with ih[OF c skip _ below] c'(2) show ?thesis by simp
qed

lemma dfsEntry_skip:
  "wfEntry e \<Longrightarrow> (d, Some es) \<in> set (dfsEntry cur e) \<Longrightarrow>
   \<exists>e \<in> set es. entName e \<in> set skipDirs \<Longrightarrow>
   (q, r) \<in> set (dfsEntry cur e) \<Longrightarrow> atOrBelow d q \<Longrightarrow> q = d"
proof (induction e arbitrary: cur d es q r)
  case (File n)
  then show ?case by simp
next
  case (Locked n)
  then show ?case by simp
next
  case (Dir n es0)
  from Dir.prems(1) have names: "distinct (map entName es0)" and wf: "\<forall>c \<in> set es0. wfEntry c"
    by auto
  have ih: "q' = d'"
    if "c \<in> set es0" "(d', Some es') \<in> set (dfsEntry (joinPath cur n) c)"
       "\<exists>e \<in> set es'. entName e \<in> set skipDirs"
       "(q', r') \<in> set (dfsEntry (joinPath cur n) c)" "atOrBelow d' q'" for c d' es' q' r'
    using Dir.IH[OF that(1) _ that(2,3,4,5)] wf that(1) by blast
  from Dir.prems(2) have mem: "(d, Some es) \<in> set ((joinPath cur n, Some es0) #
                (if descends es0 then concat (map (dfsEntry (joinPath cur n)) es0) else []))"
    by simp
  from Dir.prems(4) have qmem: "(q, r) \<in> set ((joinPath cur n, Some es0) #
                (if descends es0 then concat (map (dfsEntry (joinPath cur n)) es0) else []))"
    by simp
  from skip_step[OF names wf ih mem Dir.prems(3) qmem Dir.prems(5)] show ?case .
qed

lemma dfsFrame_skip:
  "wfTree rd \<Longrightarrow> (d, Some es) \<in> set (dfsFrame (root, rd)) \<Longrightarrow>
   \<exists>e \<in> set es. entName e \<in> set skipDirs \<Longrightarrow>
   (q, r) \<in> set (dfsFrame (root, rd)) \<Longrightarrow> atOrBelow d q \<Longrightarrow> q = d"
proof (cases rd)
  case None
  assume "(d, Some es) \<in> set (dfsFrame (root, rd))"
  with None show ?thesis by simp
next
  case (Some es0)
  assume wft: "wfTree rd" and m: "(d, Some es) \<in> set (dfsFrame (root, rd))"
    and skip: "\<exists>e \<in> set es. entName e \<in> set skipDirs"
    and q: "(q, r) \<in> set (dfsFrame (root, rd))" and below: "atOrBelow d q"
  from wft Some have names: "distinct (map entName es0)" and wf: "\<forall>c \<in> set es0. wfEntry c"
    by auto
  have ih: "q' = d'"
    if "c \<in> set es0" "(d', Some es') \<in> set (dfsEntry root c)"
       "\<exists>e \<in> set es'. entName e \<in> set skipDirs"
       "(q', r') \<in> set (dfsEntry root c)" "atOrBelow d' q'" for c d' es' q' r'
    using dfsEntry_skip[OF _ that(2,3,4,5)] wf that(1) by blast
  from m Some have mem: "(d, Some es) \<in> set ((root, Some es0) #
                (if descends es0 then concat (map (dfsEntry root) es0) else []))"
    by simp
  from q Some have qmem: "(q, r) \<in> set ((root, Some es0) #
                (if descends es0 then concat (map (dfsEntry root) es0) else []))"
    by simp
  from skip_step[OF names wf ih mem skip qmem below] show ?thesis .
qed

text \<open>
  Claim C5. In a walk of \<open>findProjects\<close> over a directory tree, a visited directory that
  holds an entry with a skip name has none of its subdirectories visited, whatever its
  other entries are; indeed no path below it is visited. Names are as a file system has
  them: without the separator, and different within one directory.
\<close>

theorem walkFast_skip_prunes:
  "wfTree rd \<Longrightarrow> (d, Some es) \<in> set (snd (walkFast root rd findVisit st)) \<Longrightarrow>
   \<exists>e \<in> set es. entName e \<in> set skipDirs \<Longrightarrow>
     (\<forall>x \<in> set es. joinPath d (entName x) \<notin> fst ` set (snd (walkFast root rd findVisit st)))
   \<and> (\<forall>q \<in> fst ` set (snd (walkFast root rd findVisit st)). atOrBelow d q \<longrightarrow> q = d)"
proof -
  assume wft: "wfTree rd" and m: "(d, Some es) \<in> set (snd (walkFast root rd findVisit st))"
    and skip: "\<exists>e \<in> set es. entName e \<in> set skipDirs"
  have vis: "snd (walkFast root rd findVisit st) = dfsFrame (root, rd)"
    by (rule walkFast_findVisit_visited)
  have b: "q = d" if "q \<in> fst ` set (snd (walkFast root rd findVisit st))" "atOrBelow d q" for q
  proof -
    from that(1) vis obtain r where "(q, r) \<in> set (dfsFrame (root, rd))" by auto
    from dfsFrame_skip[OF wft _ skip this that(2)] m vis show ?thesis by simp
  qed
  have "joinPath d (entName x) \<notin> fst ` set (snd (walkFast root rd findVisit st))" for x
  proof
    assume "joinPath d (entName x) \<in> fst ` set (snd (walkFast root rd findVisit st))"
    from b[OF this atOrBelow_child] joinPath_longer[of d "entName x"] show False by simp
  qed
  with b show ?thesis by blast
qed

theorem walkFast_skip_prunes_witness:
  "wfTree (Some [Dir ''b'' [Dir ''node_modules'' [], File ''package.json'', File ''go.work'', Dir ''x'' []]])
   \<and> (''/r/b'', Some [Dir ''node_modules'' [], File ''package.json'', File ''go.work'', Dir ''x'' []])
       \<in> set (snd (walkFast ''/r''
            (Some [Dir ''b'' [Dir ''node_modules'' [], File ''package.json'', File ''go.work'', Dir ''x'' []]])
            findVisit \<lparr>projects = [], seen = {}\<rparr>))
   \<and> entName (Dir ''node_modules'' []) \<in> set skipDirs
   \<and> ''/r/b/x'' \<notin> fst ` set (snd (walkFast ''/r''
            (Some [Dir ''b'' [Dir ''node_modules'' [], File ''package.json'', File ''go.work'', Dir ''x'' []]])
            findVisit \<lparr>projects = [], seen = {}\<rparr>))"
proof -
  let ?es = "[Dir ''node_modules'' [], File ''package.json'', File ''go.work'', Dir ''x'' []]"
  let ?rd = "Some [Dir ''b'' ?es]"
  let ?v = "snd (walkFast ''/r'' ?rd findVisit \<lparr>projects = [], seen = {}\<rparr>)"
  have wf: "wfTree ?rd" by simp
  have v: "?v = [(''/r'', ?rd), (''/r/b'', Some ?es)]" by code_simp
  have m: "(''/r/b'', Some ?es) \<in> set ?v" unfolding v by simp
  have sk: "entName (Dir ''node_modules'' []) \<in> set skipDirs" by (simp add: skipDirs_def)
  then have ex: "\<exists>e \<in> set ?es. entName e \<in> set skipDirs" by simp
  from walkFast_skip_prunes[OF wf m ex]
  have "joinPath ''/r/b'' (entName (Dir ''x'' [])) \<notin> fst ` set ?v" by simp
  then have "''/r/b/x'' \<notin> fst ` set ?v" by (simp add: joinPath_def)
  with wf m sk show ?thesis by blast
qed


section \<open>Properties of the cache store\<close>

text \<open>
  Claim C9. When \<open>saveCache\<close> succeeds, \<open>loadCache\<close> at the same path returns the list
  that was saved, the empty list included. The library is used under its contract:
  \<open>json.Unmarshal\<close> reads back the value that \<open>json.MarshalIndent\<close> wrote.
\<close>

theorem cache_round_trip:
  assumes codec: "\<forall>data. marshalIndent \<lparr>Projects = ps\<rparr> = Inr data
                    \<longrightarrow> unmarshal data = Inr \<lparr>Projects = ps\<rparr>"
    and saved: "saveCache marshalIndent fs path ps = (None, fs1)"
  shows "loadCache unmarshal fs1 path = Inr ps"
proof (cases "marshalIndent \<lparr>Projects = ps\<rparr>")
  case (Inl err)
  with saved show ?thesis by (simp add: saveCache_def)
next
  case (Inr data)
  with saved have w: "writeFile fs path data = (None, fs1)" by (simp add: saveCache_def)
  then have "files fs1 path = Some data"
    by (auto simp: writeFile_def split: if_splits)
  moreover from codec Inr have "unmarshal data = Inr \<lparr>Projects = ps\<rparr>" by blast
  ultimately show ?thesis by (simp add: loadCache_def readFile_def)
qed

theorem cache_round_trip_witness:
  "saveCache (\<lambda>c. Inr (concat (Projects c))) \<lparr>files = Map.empty, readOnly = {}\<rparr> ''cache.json'' [''/a/foo'']
     = (None, \<lparr>files = [''cache.json'' \<mapsto> ''/a/foo''], readOnly = {}\<rparr>)
   \<and> loadCache (\<lambda>data. Inr \<lparr>Projects = [data]\<rparr>)
        \<lparr>files = [''cache.json'' \<mapsto> ''/a/foo''], readOnly = {}\<rparr> ''cache.json'' = Inr [''/a/foo'']
   \<and> saveCache (\<lambda>c. Inr []) \<lparr>files = Map.empty, readOnly = {}\<rparr> ''cache.json'' []
     = (None, \<lparr>files = [''cache.json'' \<mapsto> []], readOnly = {}\<rparr>)
   \<and> loadCache (\<lambda>data. Inr \<lparr>Projects = []\<rparr>)
        \<lparr>files = [''cache.json'' \<mapsto> []], readOnly = {}\<rparr> ''cache.json'' = Inr []"
proof -
  have s1: "saveCache (\<lambda>c. Inr (concat (Projects c))) \<lparr>files = Map.empty, readOnly = {}\<rparr>
              ''cache.json'' [''/a/foo'']
     = (None, \<lparr>files = [''cache.json'' \<mapsto> ''/a/foo''], readOnly = {}\<rparr>)"
    by (simp add: saveCache_def writeFile_def)
  have c1: "\<forall>data. (\<lambda>c. Inr (concat (Projects c)) :: error + string) \<lparr>Projects = [''/a/foo'']\<rparr> = Inr data
                    \<longrightarrow> (\<lambda>data. Inr \<lparr>Projects = [data]\<rparr> :: error + Cache) data
                          = Inr \<lparr>Projects = [''/a/foo'']\<rparr>"
    by simp
  have s2: "saveCache (\<lambda>c. Inr []) \<lparr>files = Map.empty, readOnly = {}\<rparr> ''cache.json'' []
     = (None, \<lparr>files = [''cache.json'' \<mapsto> []], readOnly = {}\<rparr>)"
    by (simp add: saveCache_def writeFile_def)
  have c2: "\<forall>data. (\<lambda>c. Inr [] :: error + string) \<lparr>Projects = []\<rparr> = Inr data
                    \<longrightarrow> (\<lambda>data. Inr \<lparr>Projects = []\<rparr> :: error + Cache) data = Inr \<lparr>Projects = []\<rparr>"
    by simp
  from cache_round_trip[OF c1 s1] cache_round_trip[OF c2 s2] s1 s2 show ?thesis by simp
qed


end
